theory Spec2Isabelle
  imports Complex_Main "HOL-Library.AList"
begin

section \<open>Data model of elements.py\<close>

text \<open>
  Python floats are modelled as the reals (rounding is not modelled), Python dictionaries as
  association lists in insertion order (\<open>map_of\<close> looks a key up, \<open>AList.update\<close> stores:
  an existing key keeps its position, a new key is appended), and every raised exception as
  a value \<open>Inl e\<close>.

  Objects that are shared and mutated live in stores. A Node or Line object is identified
  by the key under which the Network's dictionary \<open>nodes\<close> or \<open>lines\<close> holds it (the
  dictionaries never delete or replace an entry), so a reference to it is that key. Python
  list objects holding a signal path live in a heap of cells.

  \<open>KeyError k\<close> is a failed dictionary lookup of key \<open>k\<close>, \<open>ValueError\<close> a failed
  unpacking of a position into two coordinates. \<open>DanglingReference\<close> has no counterpart in
  Python, where a reference always leads to its object: it is the result of following a
  reference that names no stored object, which no Network built by the code contains
  (\<open>refs_ok\<close> below).
\<close>

datatype error =
    KeyError string
  | ValueError
  | DanglingReference string

subsection \<open>The heap of list objects\<close>

record heap =
  cells :: "nat \<Rightarrow> string list"
  next_free :: nat

text \<open>\<open>list(xs)\<close>: a new list object with the elements of \<open>xs\<close>.\<close>

definition alloc_list :: "heap \<Rightarrow> string list \<Rightarrow> heap \<times> nat" where
  "alloc_list h xs =
     (h\<lparr>cells := (cells h)(next_free h := xs), next_free := Suc (next_free h)\<rparr>, next_free h)"

text \<open>Assignment of new contents to the list object at address \<open>a\<close>.\<close>

definition set_cell :: "heap \<Rightarrow> nat \<Rightarrow> string list \<Rightarrow> heap" where
  "set_cell h a xs = h\<lparr>cells := (cells h)(a := xs)\<rparr>"

subsection \<open>Signal\_information\<close>

record Signal_information =
  signal_power :: real
  noise_power :: real
  latency :: real
  path :: nat

text \<open>The constructor receives a reference \<open>p\<close> to the caller's list and copies it.\<close>

definition Signal_information_init ::
  "heap \<Rightarrow> real \<Rightarrow> nat \<Rightarrow> heap \<times> Signal_information" where
  "Signal_information_init h P p =
     (let (h', a) = alloc_list h (cells h p)
      in (h', \<lparr>signal_power = P, noise_power = 0, latency = 0, path = a\<rparr>))"

definition update_signal_power :: "Signal_information \<Rightarrow> real \<Rightarrow> Signal_information" where
  "update_signal_power s increment = s\<lparr>signal_power := signal_power s + increment\<rparr>"

definition update_noise_power :: "Signal_information \<Rightarrow> real \<Rightarrow> Signal_information" where
  "update_noise_power s increment = s\<lparr>noise_power := noise_power s + increment\<rparr>"

definition update_latency :: "Signal_information \<Rightarrow> real \<Rightarrow> Signal_information" where
  "update_latency s increment = s\<lparr>latency := latency s + increment\<rparr>"

text \<open>\<open>self.path.pop(0)\<close> mutates the list object in place.\<close>

definition update_path :: "heap \<Rightarrow> Signal_information \<Rightarrow> heap" where
  "update_path h s =
     (if cells h (path s) \<noteq> []
      then set_cell h (path s) (tl (cells h (path s)))
      else h)"

subsection \<open>Node and Line\<close>

record Node =
  node_label :: string
  node_position :: "real list"
  node_connected_nodes :: "string list"
  node_successive :: "(string \<times> string) list"

record Line =
  line_label :: string
  line_length :: real
  line_successive :: "(string \<times> string) list"

record Network =
  nodes :: "(string \<times> Node) list"
  lines :: "(string \<times> Line) list"

text \<open>
  A topology entry as \<open>json.load\<close> delivers it: each of the three fields may be absent.
  A field that is present has the type of the documented format: a string, a list of
  numbers (of any length), a list of strings.
\<close>

record node_dict =
  nd_label :: "string option"
  nd_position :: "real list option"
  nd_connected_nodes :: "string list option"

definition Node_init :: "node_dict \<Rightarrow> error + Node" where
  "Node_init nd =
     (case nd_label nd of
        None \<Rightarrow> Inl (KeyError ''label'')
      | Some l \<Rightarrow>
          (case nd_position nd of
             None \<Rightarrow> Inl (KeyError ''position'')
           | Some pos \<Rightarrow>
               (case nd_connected_nodes nd of
                  None \<Rightarrow> Inl (KeyError ''connected_nodes'')
                | Some cn \<Rightarrow>
                    Inr \<lparr>node_label = l, node_position = pos,
                         node_connected_nodes = cn, node_successive = []\<rparr>)))"

definition Line_init :: "string \<Rightarrow> real \<Rightarrow> Line" where
  "Line_init lbl len = \<lparr>line_label = lbl, line_length = len, line_successive = []\<rparr>"

definition latency_generation :: "Line \<Rightarrow> real" where
  "latency_generation self =
     (let c = 300000000; v = (2 / 3) * c in line_length self / v)"

definition noise_generation :: "Line \<Rightarrow> real \<Rightarrow> real" where
  "noise_generation self sp = (1 / 10 ^ 9) * sp * line_length self"

subsection \<open>Propagation: Node.propagate and Line.propagate\<close>

text \<open>
  The two methods call each other until the path is used up. \<open>self\<close> is the object the
  method runs on; the Network is read only, to dereference the entries of \<open>successive\<close>.
\<close>

function Node_propagate ::
    "Network \<Rightarrow> Node \<Rightarrow> heap \<Rightarrow> Signal_information \<Rightarrow> error + heap \<times> Signal_information"
  and Line_propagate ::
    "Network \<Rightarrow> Line \<Rightarrow> heap \<Rightarrow> Signal_information \<Rightarrow> error + heap \<times> Signal_information"
  where
  "Node_propagate net self h s =
     (let h1 = update_path h s in
      if cells h1 (path s) \<noteq> [] then
        (let next_node = hd (cells h1 (path s));
             line_key = node_label self @ next_node
         in case map_of (node_successive self) line_key of
              None \<Rightarrow> Inl (KeyError line_key)
            | Some r \<Rightarrow>
                (case map_of (lines net) r of
                   None \<Rightarrow> Inl (DanglingReference r)
                 | Some line \<Rightarrow> Line_propagate net line h1 s))
      else Inr (h1, s))"
| "Line_propagate net self h s =
     (let s1 = update_latency s (latency_generation self);
          s2 = update_noise_power s1 (noise_generation self (signal_power s1))
      in if cells h (path s2) \<noteq> [] then
           (let next_node_label = hd (cells h (path s2))
            in case map_of (line_successive self) next_node_label of
                 None \<Rightarrow> Inl (KeyError next_node_label)
               | Some r \<Rightarrow>
                   (case map_of (nodes net) r of
                      None \<Rightarrow> Inl (DanglingReference r)
                    | Some next_node \<Rightarrow> Node_propagate net next_node h s2))
         else Inr (h, s2))"
  by pat_completeness auto
termination
  apply (relation "measure (\<lambda>x. case x of
         Inl (net, self, h, s) \<Rightarrow> 2 * length (cells h (path s))
       | Inr (net, self, h, s) \<Rightarrow> 2 * length (cells h (path s)) + 1)")
    apply (auto simp: update_path_def set_cell_def update_latency_def update_noise_power_def
      split: if_splits)
  subgoal for net self h s by (cases "cells h (path s)") simp_all
  done

definition Network_propagate ::
  "Network \<Rightarrow> heap \<Rightarrow> Signal_information \<Rightarrow> error + heap \<times> Signal_information" where
  "Network_propagate net h s =
     (if cells h (path s) = [] then Inr (h, s)
      else (let start_label = hd (cells h (path s))
            in case map_of (nodes net) start_label of
                 None \<Rightarrow> Inl (KeyError start_label)
               | Some n \<Rightarrow> Node_propagate net n h s))"

subsection \<open>Network: construction\<close>

text \<open>
  \<open>nd.setdefault("label", label)\<close>: the entry's own label stays, a missing one becomes
  the entry's key.
\<close>

definition setdefault_label :: "node_dict \<Rightarrow> string \<Rightarrow> node_dict" where
  "setdefault_label nd lbl =
     (case nd_label nd of None \<Rightarrow> nd\<lparr>nd_label := Some lbl\<rparr> | Some _ \<Rightarrow> nd)"

text \<open>
  The loop of \<open>Network.__init__\<close> over \<open>data.items()\<close>, the parsed JSON object (reading
  and parsing the file is outside the model).
\<close>

fun Network_init_loop :: "(string \<times> node_dict) list \<Rightarrow> Network \<Rightarrow> error + Network" where
  "Network_init_loop [] net = Inr net"
| "Network_init_loop ((lbl, nd) # rest) net =
     (case Node_init (setdefault_label nd lbl) of
        Inl e \<Rightarrow> Inl e
      | Inr n \<Rightarrow> Network_init_loop rest (net\<lparr>nodes := AList.update lbl n (nodes net)\<rparr>))"

definition Network_init :: "(string \<times> node_dict) list \<Rightarrow> error + Network" where
  "Network_init data = Network_init_loop data \<lparr>nodes = [], lines = []\<rparr>"

subsection \<open>Network.connect\<close>

text \<open>\<open>x, y = position\<close> raises ValueError unless the tuple has two components.\<close>

definition unpack2 :: "real list \<Rightarrow> error + real \<times> real" where
  "unpack2 xs = (case xs of [x, y] \<Rightarrow> Inr (x, y) | _ \<Rightarrow> Inl ValueError)"

definition hypot :: "real \<Rightarrow> real \<Rightarrow> real" where
  "hypot x y = sqrt (x\<^sup>2 + y\<^sup>2)"

text \<open>First loop: create the Line objects. The inner loop runs over one adjacency list.\<close>

fun connect_create_inner ::
  "string \<Rightarrow> real \<Rightarrow> real \<Rightarrow> string list \<Rightarrow> Network \<Rightarrow> error + Network" where
  "connect_create_inner a_label ax ay [] net = Inr net"
| "connect_create_inner a_label ax ay (b_label # rest) net =
     (case map_of (nodes net) b_label of
        None \<Rightarrow> Inl (KeyError b_label)
      | Some node_b \<Rightarrow>
          (case unpack2 (node_position node_b) of
             Inl e \<Rightarrow> Inl e
           | Inr (bx, by) \<Rightarrow>
               (let len = hypot (bx - ax) (by - ay);
                    ab = a_label @ b_label;
                    net' = (if map_of (lines net) ab = None
                            then net\<lparr>lines := AList.update ab (Line_init ab len) (lines net)\<rparr>
                            else net)
                in connect_create_inner a_label ax ay rest net')))"

fun connect_create :: "(string \<times> Node) list \<Rightarrow> Network \<Rightarrow> error + Network" where
  "connect_create [] net = Inr net"
| "connect_create ((a_label, node_a) # rest) net =
     (case unpack2 (node_position node_a) of
        Inl e \<Rightarrow> Inl e
      | Inr (ax, ay) \<Rightarrow>
          (case connect_create_inner a_label ax ay (node_connected_nodes node_a) net of
             Inl e \<Rightarrow> Inl e
           | Inr net' \<Rightarrow> connect_create rest net'))"

text \<open>
  Second loop: wire node to line and line to next node. \<open>node_a.successive[ab] = line_ab\<close>
  and \<open>line_ab.successive[b_label] = self.nodes[b_label]\<close> mutate the objects stored under
  \<open>a_label\<close> and \<open>ab\<close>; the stored references are the keys \<open>ab\<close> and \<open>b_label\<close>.
\<close>

fun connect_wire_inner :: "string \<Rightarrow> string list \<Rightarrow> Network \<Rightarrow> error + Network" where
  "connect_wire_inner a_label [] net = Inr net"
| "connect_wire_inner a_label (b_label # rest) net =
     (let ab = a_label @ b_label
      in case map_of (lines net) ab of
           None \<Rightarrow> Inl (KeyError ab)
         | Some line_ab \<Rightarrow>
             (let net1 = net\<lparr>nodes := AList.map_entry a_label
                           (\<lambda>n. n\<lparr>node_successive := AList.update ab ab (node_successive n)\<rparr>)
                           (nodes net)\<rparr>
              in case map_of (nodes net1) b_label of
                   None \<Rightarrow> Inl (KeyError b_label)
                 | Some node_b \<Rightarrow>
                     connect_wire_inner a_label rest
                       (net1\<lparr>lines := AList.map_entry ab
                          (\<lambda>l. l\<lparr>line_successive :=
                                   AList.update b_label b_label (line_successive l)\<rparr>)
                          (lines net1)\<rparr>)))"

fun connect_wire :: "(string \<times> Node) list \<Rightarrow> Network \<Rightarrow> error + Network" where
  "connect_wire [] net = Inr net"
| "connect_wire ((a_label, node_a) # rest) net =
     (case connect_wire_inner a_label (node_connected_nodes node_a) net of
        Inl e \<Rightarrow> Inl e
      | Inr net' \<Rightarrow> connect_wire rest net')"

text \<open>
  Both loops iterate \<open>self.nodes.items()\<close>. Neither adds or removes a node, and the fields
  the loops read from \<open>node_a\<close> (position, connected\_nodes) are never assigned, so the
  entries are taken as they stand when the loop starts.
\<close>

definition connect :: "Network \<Rightarrow> error + Network" where
  "connect net =
     (case connect_create (nodes net) net of
        Inl e \<Rightarrow> Inl e
      | Inr net1 \<Rightarrow> connect_wire (nodes net1) net1)"

subsection \<open>Network.find\_paths\<close>

text \<open>
  \<open>dfs\<close> appends to the list \<open>paths\<close> of the enclosing call; the model threads it.
  \<open>dfs_loop\<close> is the \<open>for nxt in ...\<close> loop over the neighbours still to visit.
\<close>

function dfs ::
    "Network \<Rightarrow> string \<Rightarrow> string \<Rightarrow> string list \<Rightarrow> string list list \<Rightarrow> error + string list list"
  and dfs_loop ::
    "Network \<Rightarrow> string \<Rightarrow> string list \<Rightarrow> string list \<Rightarrow> string list list \<Rightarrow> error + string list list"
  where
  "dfs net end_label cur pth paths =
     (if cur = end_label then Inr (paths @ [pth])
      else case map_of (nodes net) cur of
             None \<Rightarrow> Inl (KeyError cur)
           | Some n \<Rightarrow> dfs_loop net end_label (node_connected_nodes n) pth paths)"
| "dfs_loop net end_label [] pth paths = Inr paths"
| "dfs_loop net end_label (nxt # rest) pth paths =
     (if nxt \<notin> set pth then
        (case dfs net end_label nxt (pth @ [nxt]) paths of
           Inl e \<Rightarrow> Inl e
         | Inr paths' \<Rightarrow> dfs_loop net end_label rest pth paths')
      else dfs_loop net end_label rest pth paths)"
  by pat_completeness auto
termination
proof (relation "measures
    [\<lambda>x. case x of
        Inl (net, e, cur, pth, ps) \<Rightarrow>
          (if cur \<in> fst ` set (nodes net)
           then 2 * card (fst ` set (nodes net) - set pth) + 2 else 0)
      | Inr (net, e, nbrs, pth, ps) \<Rightarrow> 2 * card (fst ` set (nodes net) - set pth) + 1,
     \<lambda>x. case x of Inl _ \<Rightarrow> 0 | Inr (net, e, nbrs, pth, ps) \<Rightarrow> length nbrs]",
    goal_cases)
  case 1
  show ?case by simp
next
  case (2 net end_label cur pth paths n)
  then have "cur \<in> fst ` set (nodes net)"
    by (metis map_of_SomeD fst_conv image_eqI)
  then show ?case by simp
next
  case (3 net end_label nxt rest pth paths)
  show ?case
  proof (cases "nxt \<in> fst ` set (nodes net)")
    case True
    have "fst ` set (nodes net) - set (pth @ [nxt]) \<subset> fst ` set (nodes net) - set pth"
      using True 3 by auto
    then have "card (fst ` set (nodes net) - set (pth @ [nxt]))
        < card (fst ` set (nodes net) - set pth)"
      by (intro psubset_card_mono) auto
    then show ?thesis using True by simp
  next
    case False
    then show ?thesis by simp
  qed
next
  case 4
  then show ?case by simp
next
  case 5
  then show ?case by simp
qed

definition find_paths :: "Network \<Rightarrow> string \<Rightarrow> string \<Rightarrow> error + string list list" where
  "find_paths net start end_label =
     (if map_of (nodes net) start = None \<or> map_of (nodes net) end_label = None then Inr []
      else dfs net end_label start [start] [])"

subsection \<open>Specification vocabulary\<close>

text \<open>
  The Node that \<open>Network.__init__\<close> is expected to build from the entry under key
  \<open>lbl\<close>, the entries it can build a Node from, and the field whose absence is
  reported first.
\<close>

definition entry_complete :: "node_dict \<Rightarrow> bool" where
  "entry_complete nd = (nd_position nd \<noteq> None \<and> nd_connected_nodes nd \<noteq> None)"

definition entry_node :: "string \<Rightarrow> node_dict \<Rightarrow> Node" where
  "entry_node lbl nd =
     \<lparr>node_label = (case nd_label nd of None \<Rightarrow> lbl | Some l \<Rightarrow> l),
      node_position = (case nd_position nd of None \<Rightarrow> [] | Some pos \<Rightarrow> pos),
      node_connected_nodes = (case nd_connected_nodes nd of None \<Rightarrow> [] | Some cn \<Rightarrow> cn),
      node_successive = []\<rparr>"

definition missing_field :: "node_dict \<Rightarrow> string" where
  "missing_field nd = (if nd_position nd = None then ''position'' else ''connected_nodes'')"

text \<open>
  A description without labels in which the adjacency list of A names a node B that is
  no entry, and the Network built from it.
\<close>

definition dangling_data :: "(string \<times> node_dict) list" where
  "dangling_data =
     [(''A'', \<lparr>nd_label = None, nd_position = Some [0, 0],
               nd_connected_nodes = Some [''B'', ''C'']\<rparr>),
      (''C'', \<lparr>nd_label = None, nd_position = Some [1, 0],
               nd_connected_nodes = Some []\<rparr>)]"

definition dangling_net :: Network where
  "dangling_net =
     \<lparr>nodes =
        [(''A'', \<lparr>node_label = ''A'', node_position = [0, 0],
                  node_connected_nodes = [''B'', ''C''], node_successive = []\<rparr>),
         (''C'', \<lparr>node_label = ''C'', node_position = [1, 0],
                  node_connected_nodes = [], node_successive = []\<rparr>)],
      lines = []\<rparr>"

text \<open>
  The references held in the \<open>successive\<close> dictionaries are in order: each is the key
  it is stored under and names an existing object.
\<close>

definition refs_ok :: "Network \<Rightarrow> bool" where
  "refs_ok net =
     ((\<forall>a n k r. map_of (nodes net) a = Some n \<longrightarrow> map_of (node_successive n) k = Some r
          \<longrightarrow> r = k \<and> map_of (lines net) k \<noteq> None)
      \<and> (\<forall>k l b r. map_of (lines net) k = Some l \<longrightarrow> map_of (line_successive l) b = Some r
          \<longrightarrow> r = b \<and> map_of (nodes net) b \<noteq> None))"

text \<open>
  \<open>hop_line net a b\<close> is the Line a signal at node \<open>a\<close> takes towards \<open>b\<close>: the
  entry of \<open>a\<close>'s \<open>successive\<close> under the key Node.propagate looks up (the node's own
  label followed by \<open>b\<close>), provided that Line's \<open>successive\<close> has an entry for \<open>b\<close>.
  The hop is wired when there is such a Line. \<open>hops_wired\<close> says so for all consecutive
  hops of a path, \<open>hop_lines\<close> lists the Lines traversed.
\<close>

definition hop_line :: "Network \<Rightarrow> string \<Rightarrow> string \<Rightarrow> Line option" where
  "hop_line net a b =
     (case map_of (nodes net) a of
        None \<Rightarrow> None
      | Some n \<Rightarrow>
          (case map_of (node_successive n) (node_label n @ b) of
             None \<Rightarrow> None
           | Some r \<Rightarrow>
               (case map_of (lines net) r of
                  None \<Rightarrow> None
                | Some l \<Rightarrow>
                    (case map_of (line_successive l) b of
                       None \<Rightarrow> None
                     | Some r' \<Rightarrow> Some l))))"

fun hops_wired :: "Network \<Rightarrow> string list \<Rightarrow> bool" where
  "hops_wired net [] = True"
| "hops_wired net [a] = (map_of (nodes net) a \<noteq> None)"
| "hops_wired net (a # b # rest) = (hop_line net a b \<noteq> None \<and> hops_wired net (b # rest))"

fun hop_lines :: "Network \<Rightarrow> string list \<Rightarrow> Line list" where
  "hop_lines net (a # b # rest) =
     (case hop_line net a b of None \<Rightarrow> [] | Some l \<Rightarrow> [l]) @ hop_lines net (b # rest)"
| "hop_lines net p = []"

text \<open>
  The directed graph of the adjacency lists: \<open>edge net a b\<close> when \<open>b\<close> is in the
  adjacency list of node \<open>a\<close>. A simple path from \<open>start\<close> to \<open>end_label\<close> is a
  non-empty sequence of labels without repetition, from \<open>start\<close> to \<open>end_label\<close>, both
  nodes of the topology, whose consecutive labels are edges. The adjacency is closed when
  every label of every adjacency list is a node of the topology.
\<close>

definition edge :: "Network \<Rightarrow> string \<Rightarrow> string \<Rightarrow> bool" where
  "edge net a b =
     (case map_of (nodes net) a of
        None \<Rightarrow> False
      | Some n \<Rightarrow> b \<in> set (node_connected_nodes n))"

fun walk :: "Network \<Rightarrow> string list \<Rightarrow> bool" where
  "walk net (a # b # rest) = (edge net a b \<and> walk net (b # rest))"
| "walk net p = True"

definition simple_path :: "Network \<Rightarrow> string \<Rightarrow> string \<Rightarrow> string list \<Rightarrow> bool" where
  "simple_path net start end_label p =
     (p \<noteq> [] \<and> hd p = start \<and> last p = end_label \<and> distinct p \<and> walk net p
      \<and> map_of (nodes net) start \<noteq> None \<and> map_of (nodes net) end_label \<noteq> None)"

definition adjacency_closed :: "Network \<Rightarrow> bool" where
  "adjacency_closed net =
     list_all (\<lambda>(a, n). list_all (\<lambda>b. map_of (nodes net) b \<noteq> None) (node_connected_nodes n))
       (nodes net)"

text \<open>
  The continuations of a partial path \<open>pth\<close> standing at \<open>cur\<close>: the paths that
  \<open>dfs\<close> is to append.
\<close>

definition extensions :: "Network \<Rightarrow> string \<Rightarrow> string \<Rightarrow> string list \<Rightarrow> string list set" where
  "extensions net end_label cur pth =
     {q. \<exists>ext. q = pth @ ext \<and> walk net (cur # ext) \<and> distinct (pth @ ext)
           \<and> last (cur # ext) = end_label}"

subsection \<open>Vocabulary for the wiring\<close>

text \<open>
  \<open>position_ok\<close>: the label names a node whose position unpacks into two coordinates.
  \<open>create_done net a n\<close>: the first loop of connect has nothing left to do for the entry
  \<open>(a, n)\<close>. \<open>wired_ok net a b\<close>: node \<open>a\<close> holds the Line of key \<open>a @ b\<close> under that
  key, and that Line holds node \<open>b\<close> under \<open>b\<close>. The skeleton of a Network is what connect
  never assigns: keys, positions and adjacency lists. \<open>wire_step\<close> is one pass through
  the body of the second loop.
\<close>

definition position_ok :: "Network \<Rightarrow> string \<Rightarrow> bool" where
  "position_ok net b =
     (case map_of (nodes net) b of
        None \<Rightarrow> False
      | Some nb \<Rightarrow> (case unpack2 (node_position nb) of Inl e \<Rightarrow> False | Inr xy \<Rightarrow> True))"

definition create_done :: "Network \<Rightarrow> string \<Rightarrow> Node \<Rightarrow> bool" where
  "create_done net a n =
     ((case unpack2 (node_position n) of Inl e \<Rightarrow> False | Inr xy \<Rightarrow> True)
      \<and> (\<forall>b \<in> set (node_connected_nodes n).
            map_of (lines net) (a @ b) \<noteq> None \<and> position_ok net b))"

definition wired_ok :: "Network \<Rightarrow> string \<Rightarrow> string \<Rightarrow> bool" where
  "wired_ok net a b =
     ((case map_of (nodes net) a of
         None \<Rightarrow> False
       | Some n \<Rightarrow> map_of (node_successive n) (a @ b) = Some (a @ b))
      \<and> (case map_of (lines net) (a @ b) of
         None \<Rightarrow> False
       | Some l \<Rightarrow> map_of (line_successive l) b = Some b)
      \<and> map_of (nodes net) b \<noteq> None)"

definition skeleton :: "Network \<Rightarrow> (string \<times> real list \<times> string list) list" where
  "skeleton net = map (\<lambda>(k, n). (k, node_position n, node_connected_nodes n)) (nodes net)"

definition wire_step :: "string \<Rightarrow> string \<Rightarrow> Network \<Rightarrow> Network" where
  "wire_step a b net =
     net\<lparr>nodes := AList.map_entry a
               (\<lambda>n. n\<lparr>node_successive := AList.update (a @ b) (a @ b) (node_successive n)\<rparr>)
               (nodes net),
         lines := AList.map_entry (a @ b)
               (\<lambda>l. l\<lparr>line_successive := AList.update b b (line_successive l)\<rparr>)
               (lines net)\<rparr>"

text \<open>
  The keys are unambiguous when two different adjacencies never concatenate to the same
  key. \<open>line_correct sk k l\<close>: the Line \<open>l\<close> stored under \<open>k\<close> carries the label
  \<open>k\<close> and the Euclidean distance of some adjacency (a, b) with \<open>k = a @ b\<close>.
\<close>

definition keys_unambiguous :: "Network \<Rightarrow> bool" where
  "keys_unambiguous net =
     (\<forall>a b a' b'. edge net a b \<longrightarrow> edge net a' b' \<longrightarrow> a @ b = a' @ b' \<longrightarrow> a = a' \<and> b = b')"

definition line_correct :: "(string \<times> real list \<times> string list) list \<Rightarrow> string \<Rightarrow> Line \<Rightarrow> bool" where
  "line_correct sk k l =
     (\<exists>a pa ca b pb cb ax ay bx by.
        map_of sk a = Some (pa, ca) \<and> b \<in> set ca \<and> map_of sk b = Some (pb, cb)
        \<and> k = a @ b \<and> unpack2 pa = Inr (ax, ay) \<and> unpack2 pb = Inr (bx, by)
        \<and> line_label l = k \<and> line_length l = hypot (bx - ax) (by - ay))"

definition lines_correct :: "Network \<Rightarrow> bool" where
  "lines_correct net =
     (\<forall>k l. map_of (lines net) k = Some l \<longrightarrow> line_correct (skeleton net) k l)"

text \<open>
  A topology whose labels concatenate ambiguously: the adjacencies A -> BA and AB -> A
  share the key ABA. The nodes are A(0,0), AB(0,1), BA(3,4).
\<close>

definition collision_data :: "(string \<times> node_dict) list" where
  "collision_data =
     [(''A'', \<lparr>nd_label = Some ''A'', nd_position = Some [0, 0],
               nd_connected_nodes = Some [''BA'']\<rparr>),
      (''AB'', \<lparr>nd_label = Some ''AB'', nd_position = Some [0, 1],
               nd_connected_nodes = Some [''A'']\<rparr>),
      (''BA'', \<lparr>nd_label = Some ''BA'', nd_position = Some [3, 4],
               nd_connected_nodes = Some []\<rparr>)]"

definition collision_unwired :: Network where
  "collision_unwired =
     \<lparr>nodes =
        [(''A'', \<lparr>node_label = ''A'', node_position = [0, 0],
                  node_connected_nodes = [''BA''], node_successive = []\<rparr>),
         (''AB'', \<lparr>node_label = ''AB'', node_position = [0, 1],
                  node_connected_nodes = [''A''], node_successive = []\<rparr>),
         (''BA'', \<lparr>node_label = ''BA'', node_position = [3, 4],
                  node_connected_nodes = [], node_successive = []\<rparr>)],
      lines = []\<rparr>"

definition collision_net :: Network where
  "collision_net =
     \<lparr>nodes =
        [(''A'', \<lparr>node_label = ''A'', node_position = [0, 0],
                  node_connected_nodes = [''BA''],
                  node_successive = [(''ABA'', ''ABA'')]\<rparr>),
         (''AB'', \<lparr>node_label = ''AB'', node_position = [0, 1],
                  node_connected_nodes = [''A''],
                  node_successive = [(''ABA'', ''ABA'')]\<rparr>),
         (''BA'', \<lparr>node_label = ''BA'', node_position = [3, 4],
                  node_connected_nodes = [], node_successive = []\<rparr>)],
      lines =
        [(''ABA'', \<lparr>line_label = ''ABA'', line_length = 5,
                    line_successive = [(''BA'', ''BA''), (''A'', ''A'')]\<rparr>)]\<rparr>"

text \<open>
  The label each node carries, by key. A description may give an entry a label of its own
  that differs from its key, as \<open>mislabelled_data\<close> does for A.
\<close>

definition labels_of :: "Network \<Rightarrow> (string \<times> string) list" where
  "labels_of net = map (\<lambda>(k, n). (k, node_label n)) (nodes net)"

definition mislabelled_data :: "(string \<times> node_dict) list" where
  "mislabelled_data =
     [(''A'', \<lparr>nd_label = Some ''X'', nd_position = Some [0, 0],
               nd_connected_nodes = Some [''B'']\<rparr>),
      (''B'', \<lparr>nd_label = Some ''B'', nd_position = Some [0, 3],
               nd_connected_nodes = Some []\<rparr>)]"

definition mislabelled_net :: Network where
  "mislabelled_net =
     \<lparr>nodes =
        [(''A'', \<lparr>node_label = ''X'', node_position = [0, 0],
                  node_connected_nodes = [''B''],
                  node_successive = [(''AB'', ''AB'')]\<rparr>),
         (''B'', \<lparr>node_label = ''B'', node_position = [0, 3],
                  node_connected_nodes = [], node_successive = []\<rparr>)],
      lines =
        [(''AB'', \<lparr>line_label = ''AB'', line_length = 3,
                   line_successive = [(''B'', ''B'')]\<rparr>)]\<rparr>"

subsection \<open>A concrete topology\<close>

text \<open>
  Three nodes A(0,0), B(0,3), C(4,0) with the adjacency A-B, B-C in both directions; the
  entry of B carries no label of its own.
\<close>

definition example_data :: "(string \<times> node_dict) list" where
  "example_data =
     [(''A'', \<lparr>nd_label = Some ''A'', nd_position = Some [0, 0],
               nd_connected_nodes = Some [''B'']\<rparr>),
      (''B'', \<lparr>nd_label = None, nd_position = Some [0, 3],
               nd_connected_nodes = Some [''A'', ''C'']\<rparr>),
      (''C'', \<lparr>nd_label = Some ''C'', nd_position = Some [4, 0],
               nd_connected_nodes = Some [''B'']\<rparr>)]"

definition example_unwired :: Network where
  "example_unwired =
     \<lparr>nodes =
        [(''A'', \<lparr>node_label = ''A'', node_position = [0, 0],
                  node_connected_nodes = [''B''], node_successive = []\<rparr>),
         (''B'', \<lparr>node_label = ''B'', node_position = [0, 3],
                  node_connected_nodes = [''A'', ''C''], node_successive = []\<rparr>),
         (''C'', \<lparr>node_label = ''C'', node_position = [4, 0],
                  node_connected_nodes = [''B''], node_successive = []\<rparr>)],
      lines = []\<rparr>"

definition example_net :: Network where
  "example_net =
     \<lparr>nodes =
        [(''A'', \<lparr>node_label = ''A'', node_position = [0, 0],
                  node_connected_nodes = [''B''],
                  node_successive = [(''AB'', ''AB'')]\<rparr>),
         (''B'', \<lparr>node_label = ''B'', node_position = [0, 3],
                  node_connected_nodes = [''A'', ''C''],
                  node_successive = [(''BA'', ''BA''), (''BC'', ''BC'')]\<rparr>),
         (''C'', \<lparr>node_label = ''C'', node_position = [4, 0],
                  node_connected_nodes = [''B''],
                  node_successive = [(''CB'', ''CB'')]\<rparr>)],
      lines =
        [(''AB'', \<lparr>line_label = ''AB'', line_length = 3,
                   line_successive = [(''B'', ''B'')]\<rparr>),
         (''BA'', \<lparr>line_label = ''BA'', line_length = 3,
                   line_successive = [(''A'', ''A'')]\<rparr>),
         (''BC'', \<lparr>line_label = ''BC'', line_length = 5,
                   line_successive = [(''C'', ''C'')]\<rparr>),
         (''CB'', \<lparr>line_label = ''CB'', line_length = 5,
                   line_successive = [(''B'', ''B'')]\<rparr>)]\<rparr>"

text \<open>A heap whose only list object, at address 0, is the caller's path.\<close>

definition example_heap :: "string list \<Rightarrow> heap" where
  "example_heap p = \<lparr>cells = (\<lambda>_. [])(0 := p), next_free = 1\<rparr>"

section \<open>Evaluation of the concrete topology\<close>

declare Node_propagate.simps [simp del] Line_propagate.simps [simp del]
declare dfs.simps [simp del]

lemma hypot_eval: "0 \<le> r \<Longrightarrow> x\<^sup>2 + y\<^sup>2 = r\<^sup>2 \<Longrightarrow> hypot x y = r"
  by (simp add: hypot_def)

lemma hypot_example:
  "hypot 0 3 = 3" "hypot 0 (- 3) = 3" "hypot 4 (- 3) = 5" "hypot (- 4) 3 = 5"
  by (rule hypot_eval; simp)+

lemma example_built: "Network_init example_data = Inr example_unwired"
  by (simp add: Network_init_def example_data_def example_unwired_def Node_init_def
      setdefault_label_def)

lemma example_wired: "connect example_unwired = Inr example_net"
  by (simp add: connect_def example_unwired_def example_net_def unpack2_def hypot_example
      Line_init_def Let_def)

section \<open>Unfolding one step of the propagation\<close>

lemma cells_set_cell [simp]: "cells (set_cell h a xs) = (cells h)(a := xs)"
  by (simp add: set_cell_def)

lemma next_free_set_cell [simp]: "next_free (set_cell h a xs) = next_free h"
  by (simp add: set_cell_def)

lemma set_cell_set_cell [simp]: "set_cell (set_cell h a xs) a ys = set_cell h a ys"
  by (simp add: set_cell_def)

lemma Node_propagate_nil:
  "cells h (path s) = [] \<Longrightarrow> Node_propagate net n h s = Inr (h, s)"
  by (simp add: Node_propagate.simps [of net n h s] update_path_def)

lemma Node_propagate_single:
  "cells h (path s) = [a] \<Longrightarrow>
   Node_propagate net n h s = Inr (set_cell h (path s) [], s)"
  by (simp add: Node_propagate.simps [of net n h s] update_path_def)

lemma Node_propagate_hop:
  "cells h (path s) = a # b # rest \<Longrightarrow>
   Node_propagate net n h s =
     (case map_of (node_successive n) (node_label n @ b) of
        None \<Rightarrow> Inl (KeyError (node_label n @ b))
      | Some r \<Rightarrow>
          (case map_of (lines net) r of
             None \<Rightarrow> Inl (DanglingReference r)
           | Some l \<Rightarrow>
               (case map_of (line_successive l) b of
                  None \<Rightarrow> Inl (KeyError b)
                | Some r' \<Rightarrow>
                    (case map_of (nodes net) r' of
                       None \<Rightarrow> Inl (DanglingReference r')
                     | Some n' \<Rightarrow>
                         Node_propagate net n'
                           (set_cell h (path s) (b # rest))
                           (s\<lparr>latency := latency s + latency_generation l,
                              noise_power := noise_power s
                                + noise_generation l (signal_power s)\<rparr>)))))"
  by (simp add: Node_propagate.simps [of net n h s] Line_propagate.simps update_path_def
      update_latency_def update_noise_power_def Let_def split: option.splits)

lemma Node_propagate_frame:
  "cells h (path s) = p \<Longrightarrow> Node_propagate net n h s = Inr (h', s') \<Longrightarrow>
   path s' = path s \<and> (\<forall>a. a \<noteq> path s \<longrightarrow> cells h' a = cells h a)"
proof (induction p arbitrary: n h s)
  case Nil
  then show ?case by (simp add: Node_propagate_nil)
next
  case (Cons x p)
  show ?case
  proof (cases p)
    case Nil
    with Cons.prems show ?thesis by (auto simp: Node_propagate_single)
  next
    case (Cons b rest)
    let ?h1 = "set_cell h (path s) (b # rest)"
    from Cons.prems Cons obtain n' s1 where
      rec: "Node_propagate net n' ?h1 s1 = Inr (h', s')" and p1: "path s1 = path s"
      by (auto simp: Node_propagate_hop [of h s x b rest] split: option.splits)
    have "cells ?h1 (path s1) = p" using p1 Cons by simp
    from Cons.IH [OF this rec] p1 show ?thesis by simp
  qed
qed

section \<open>Line: latency and noise of one traversal\<close>

text \<open>
  C2. For every Line and every power P (in particular for non-negative length and
  non-negative P), latency\_generation returns length / ((2/3) * 3e8) and
  noise\_generation(P) returns 1e-9 * P * length.
\<close>

theorem latency_noise_generation_exact:
  "latency_generation l = line_length l / ((2 / 3) * 300000000)
   \<and> noise_generation l P = (1 / 10 ^ 9) * P * line_length l"
  by (simp add: latency_generation_def noise_generation_def)

section \<open>Propagation\<close>

text \<open>
  C7. A signal whose path holds exactly one node, present in the topology, makes no hop:
  Network.propagate returns the signal with signal\_power, noise\_power and latency as
  they were, and the only change is that its path list is now empty.
\<close>

theorem propagate_single_node:
  "cells h (path s) = [a] \<Longrightarrow> map_of (nodes net) a = Some n \<Longrightarrow>
   Network_propagate net h s = Inr (set_cell h (path s) [], s)"
  by (simp add: Network_propagate_def Node_propagate_single)

theorem propagate_single_node_witness:
  "cells (example_heap [''A'']) 0 = [''A'']
   \<and> map_of (nodes example_net) ''A'' =
       Some \<lparr>node_label = ''A'', node_position = [0, 0],
             node_connected_nodes = [''B''], node_successive = [(''AB'', ''AB'')]\<rparr>
   \<and> Network_propagate example_net (example_heap [''A''])
         \<lparr>signal_power = 1, noise_power = 0, latency = 0, path = 0\<rparr>
       = Inr (example_heap [], \<lparr>signal_power = 1, noise_power = 0, latency = 0, path = 0\<rparr>)"
  using propagate_single_node [of "example_heap [''A'']"
      "\<lparr>signal_power = 1, noise_power = 0, latency = 0, path = 0\<rparr>" "''A''" example_net
      "\<lparr>node_label = ''A'', node_position = [0, 0],
        node_connected_nodes = [''B''], node_successive = [(''AB'', ''AB'')]\<rparr>"]
  by (simp add: example_heap_def example_net_def set_cell_def)

section \<open>Path enumeration\<close>

text \<open>
  C8. For every topology that contains node A, find\_paths(A, A) returns exactly one path,
  the trivial path [A], whatever A's adjacency list is.
\<close>

theorem find_paths_same_node:
  "map_of (nodes net) a = Some n \<Longrightarrow> find_paths net a a = Inr [[a]]"
  by (simp add: find_paths_def dfs.simps)

theorem find_paths_same_node_witness:
  "map_of (nodes example_net) ''B'' =
       Some \<lparr>node_label = ''B'', node_position = [0, 3],
             node_connected_nodes = [''A'', ''C''],
             node_successive = [(''BA'', ''BA''), (''BC'', ''BC'')]\<rparr>
   \<and> find_paths example_net ''B'' ''B'' = Inr [[''B'']]"
  using find_paths_same_node [of example_net "''B''"
      "\<lparr>node_label = ''B'', node_position = [0, 3],
        node_connected_nodes = [''A'', ''C''],
        node_successive = [(''BA'', ''BA''), (''BC'', ''BC'')]\<rparr>"]
  by (simp add: example_net_def)

section \<open>Construction of the Network\<close>

lemma update_fresh: "k \<notin> fst ` set al \<Longrightarrow> AList.update k v al = al @ [(k, v)]"
  by (induction al) auto

lemma Node_init_setdefault:
  "Node_init (setdefault_label nd lbl) =
     (if entry_complete nd then Inr (entry_node lbl nd) else Inl (KeyError (missing_field nd)))"
  by (auto simp: Node_init_def setdefault_label_def entry_complete_def entry_node_def
      missing_field_def split: option.splits)

lemma Network_init_loop_result:
  "distinct (map fst data) \<Longrightarrow> fst ` set (nodes net) \<inter> fst ` set data = {} \<Longrightarrow>
   Network_init_loop data net =
     (case find (\<lambda>(k, nd). \<not> entry_complete nd) data of
        None \<Rightarrow> Inr (net\<lparr>nodes := nodes net @ map (\<lambda>(k, nd). (k, entry_node k nd)) data\<rparr>)
      | Some (k, nd) \<Rightarrow> Inl (KeyError (missing_field nd)))"
proof (induction data arbitrary: net)
  case Nil
  then show ?case by simp
next
  case (Cons e data)
  obtain k nd where e: "e = (k, nd)" by (cases e)
  show ?case
  proof (cases "entry_complete nd")
    case False
    then show ?thesis by (simp add: e Node_init_setdefault)
  next
    case True
    let ?net = "net\<lparr>nodes := AList.update k (entry_node k nd) (nodes net)\<rparr>"
    have fresh: "k \<notin> fst ` set (nodes net)" using Cons.prems e by auto
    have upd: "nodes ?net = nodes net @ [(k, entry_node k nd)]"
      using fresh by (simp add: update_fresh)
    have "fst ` set (nodes ?net) \<inter> fst ` set data = {}"
      using Cons.prems e by (auto simp: upd)
    moreover have "distinct (map fst data)" using Cons.prems by simp
    ultimately show ?thesis
      using Cons.IH [of ?net] True
      by (simp add: e Node_init_setdefault upd split: option.splits)
  qed
qed

text \<open>
  C5 (as amended). For a description with distinct keys whose present fields have the
  documented types, building the Network fails, with KeyError, exactly when some entry
  lacks \<open>position\<close> or \<open>connected_nodes\<close> (the first such entry decides the
  error); otherwise it constructs exactly one Node per entry, in order, the label taken
  from the entry or, when the entry has none, from its key. The neighbour labels of the
  adjacency lists are not looked up: the result does not depend on whether they are
  entries.
\<close>

theorem Network_init_result:
  "distinct (map fst data) \<Longrightarrow>
   Network_init data =
     (case find (\<lambda>(k, nd). \<not> entry_complete nd) data of
        None \<Rightarrow> Inr \<lparr>nodes = map (\<lambda>(k, nd). (k, entry_node k nd)) data, lines = []\<rparr>
      | Some (k, nd) \<Rightarrow> Inl (KeyError (missing_field nd)))"
  using Network_init_loop_result [of data "\<lparr>nodes = [], lines = []\<rparr>"]
  by (simp add: Network_init_def split: option.splits)

text \<open>
  C5 as stated fails: a description whose entries have no label and in which an adjacency
  list names a node that is no entry is built without error.
\<close>

theorem Network_init_accepts_dangling:
  "Network_init dangling_data = Inr dangling_net"
  by (simp add: dangling_data_def dangling_net_def Network_init_def setdefault_label_def
      Node_init_def)

theorem Network_init_result_witness:
  "distinct (map fst example_data) \<and> Network_init example_data = Inr example_unwired"
  using Network_init_result [of example_data]
  by (simp add: example_data_def example_unwired_def entry_complete_def entry_node_def)

section \<open>References after construction and wiring\<close>

lemma Node_init_successive: "Node_init nd = Inr n \<Longrightarrow> node_successive n = []"
  by (auto simp: Node_init_def split: option.splits)

lemma Network_init_loop_unwired:
  "Network_init_loop data net = Inr net' \<Longrightarrow> lines net = [] \<Longrightarrow>
   (\<forall>a n. map_of (nodes net) a = Some n \<longrightarrow> node_successive n = []) \<Longrightarrow>
   lines net' = [] \<and> (\<forall>a n. map_of (nodes net') a = Some n \<longrightarrow> node_successive n = [])"
proof (induction data arbitrary: net)
  case Nil
  then show ?case by simp
next
  case (Cons e data)
  obtain k nd where e: "e = (k, nd)" by (cases e)
  from Cons.prems(1) obtain n where
    n: "Node_init (setdefault_label nd k) = Inr n" and
    rest: "Network_init_loop data (net\<lparr>nodes := AList.update k n (nodes net)\<rparr>) = Inr net'"
    by (auto simp: e split: sum.splits)
  show ?case
  proof (rule Cons.IH [OF rest])
    show "lines (net\<lparr>nodes := AList.update k n (nodes net)\<rparr>) = []"
      using Cons.prems by simp
    show "\<forall>a m. map_of (nodes (net\<lparr>nodes := AList.update k n (nodes net)\<rparr>)) a = Some m
        \<longrightarrow> node_successive m = []"
      using Cons.prems(3) Node_init_successive [OF n] by (auto simp: update_conv')
  qed
qed

lemma Network_init_refs_ok: "Network_init data = Inr net \<Longrightarrow> refs_ok net"
  using Network_init_loop_unwired [of data "\<lparr>nodes = [], lines = []\<rparr>" net]
  by (auto simp: Network_init_def refs_ok_def)

lemma connect_create_inner_refs_ok:
  "connect_create_inner a ax ay bs net = Inr net' \<Longrightarrow> refs_ok net \<Longrightarrow> refs_ok net'"
proof (induction bs arbitrary: net)
  case Nil
  then show ?case by simp
next
  case (Cons b bs)
  let ?ab = "a @ b"
  from Cons.prems(1) obtain len where
    rest: "connect_create_inner a ax ay bs
       (if map_of (lines net) ?ab = None
        then net\<lparr>lines := AList.update ?ab (Line_init ?ab len) (lines net)\<rparr> else net) = Inr net'"
    by (auto simp: Let_def split: option.splits sum.splits)
  have "refs_ok (net\<lparr>lines := AList.update ?ab (Line_init ?ab len) (lines net)\<rparr>)"
    if "map_of (lines net) ?ab = None"
    using Cons.prems(2) that unfolding refs_ok_def
    by (auto simp: update_conv' Line_init_def split: if_splits)
  with Cons.prems(2) Cons.IH [OF rest] show ?case by (auto split: if_splits)
qed

lemma connect_create_refs_ok:
  "connect_create es net = Inr net' \<Longrightarrow> refs_ok net \<Longrightarrow> refs_ok net'"
proof (induction es arbitrary: net)
  case Nil
  then show ?case by simp
next
  case (Cons e es)
  obtain a n where e: "e = (a, n)" by (cases e)
  from Cons.prems(1) obtain ax ay net1 where
    "connect_create_inner a ax ay (node_connected_nodes n) net = Inr net1"
    "connect_create es net1 = Inr net'"
    by (auto simp: e split: sum.splits)
  with Cons.IH Cons.prems(2) connect_create_inner_refs_ok show ?case by blast
qed

lemma map_of_map_entry_Some:
  "map_of (AList.map_entry k f xs) x = Some v \<Longrightarrow>
   \<exists>v0. map_of xs x = Some v0 \<and> (v = v0 \<or> (x = k \<and> v = f v0))"
  by (auto simp: map_of_map_entry split: if_splits option.splits)

lemma map_of_map_entry_None:
  "map_of (AList.map_entry k f xs) x = None \<longleftrightarrow> map_of xs x = None"
  by (auto simp: map_of_map_entry split: if_splits option.splits)

lemma connect_wire_inner_refs_ok:
  "connect_wire_inner a bs net = Inr net' \<Longrightarrow> refs_ok net \<Longrightarrow> refs_ok net'"
proof (induction bs arbitrary: net)
  case Nil
  then show ?case by simp
next
  case (Cons b bs)
  let ?ab = "a @ b"
  let ?nodes1 = "AList.map_entry a
      (\<lambda>n. n\<lparr>node_successive := AList.update ?ab ?ab (node_successive n)\<rparr>) (nodes net)"
  let ?lines1 = "AList.map_entry ?ab
      (\<lambda>l. l\<lparr>line_successive := AList.update b b (line_successive l)\<rparr>) (lines net)"
  let ?net2 = "net\<lparr>nodes := ?nodes1, lines := ?lines1\<rparr>"
  from Cons.prems(1) have
    lab: "map_of (lines net) ?ab \<noteq> None" and nb: "map_of (nodes net) b \<noteq> None" and
    rest: "connect_wire_inner a bs ?net2 = Inr net'"
    by (auto simp: Let_def map_of_map_entry split: option.splits if_splits)
  note ok = Cons.prems(2) [unfolded refs_ok_def]
  have "refs_ok ?net2"
    unfolding refs_ok_def
  proof (intro conjI allI impI)
    fix x n k r
    assume n: "map_of (nodes ?net2) x = Some n" and r: "map_of (node_successive n) k = Some r"
    from n obtain n0 where n0: "map_of (nodes net) x = Some n0"
      and alt: "n = n0 \<or> n = n0\<lparr>node_successive := AList.update ?ab ?ab (node_successive n0)\<rparr>"
      by (auto dest: map_of_map_entry_Some)
    from alt r have "(k = ?ab \<and> r = ?ab) \<or> map_of (node_successive n0) k = Some r"
      by (auto simp: update_Some_unfold)
    with ok n0 lab have "r = k \<and> map_of (lines net) k \<noteq> None" by blast
    then show "r = k" and "map_of (lines ?net2) k \<noteq> None"
      by (simp_all add: map_of_map_entry_None)
  next
    fix k l x r
    assume l: "map_of (lines ?net2) k = Some l" and r: "map_of (line_successive l) x = Some r"
    from l obtain l0 where l0: "map_of (lines net) k = Some l0"
      and alt: "l = l0 \<or> l = l0\<lparr>line_successive := AList.update b b (line_successive l0)\<rparr>"
      by (auto dest: map_of_map_entry_Some)
    from alt r have "(x = b \<and> r = b) \<or> map_of (line_successive l0) x = Some r"
      by (auto simp: update_Some_unfold)
    with ok l0 nb have "r = x \<and> map_of (nodes net) x \<noteq> None" by blast
    then show "r = x" and "map_of (nodes ?net2) x \<noteq> None"
      by (simp_all add: map_of_map_entry_None)
  qed
  from Cons.IH [OF rest this] show ?case .
qed

lemma connect_wire_refs_ok:
  "connect_wire es net = Inr net' \<Longrightarrow> refs_ok net \<Longrightarrow> refs_ok net'"
proof (induction es arbitrary: net)
  case Nil
  then show ?case by simp
next
  case (Cons e es)
  obtain a n where e: "e = (a, n)" by (cases e)
  from Cons.prems(1) obtain net1 where
    "connect_wire_inner a (node_connected_nodes n) net = Inr net1"
    "connect_wire es net1 = Inr net'"
    by (auto simp: e split: sum.splits)
  with Cons.IH Cons.prems(2) connect_wire_inner_refs_ok show ?case by blast
qed

lemma connect_refs_ok: "connect net = Inr net' \<Longrightarrow> refs_ok net \<Longrightarrow> refs_ok net'"
  by (auto simp: connect_def split: sum.splits
      dest: connect_create_refs_ok connect_wire_refs_ok)

section \<open>Propagation along a path\<close>

text \<open>What one hop does when the references are in order.\<close>

lemma Node_propagate_hop_wired:
  assumes ok: "refs_ok net" and n: "map_of (nodes net) a = Some n"
    and c: "cells h (path s) = a # b # rest" and hl: "hop_line net a b = Some l"
  shows "\<exists>n'. map_of (nodes net) b = Some n' \<and>
    Node_propagate net n h s =
      Node_propagate net n'
        (set_cell h (path s) (b # rest))
        (s\<lparr>latency := latency s + latency_generation l,
           noise_power := noise_power s + noise_generation l (signal_power s)\<rparr>)"
proof -
  from hl n obtain r r' where
    r: "map_of (node_successive n) (node_label n @ b) = Some r" and
    l: "map_of (lines net) r = Some l" and
    r': "map_of (line_successive l) b = Some r'"
    by (auto simp: hop_line_def split: option.splits)
  from ok l r' have "r' = b" and "map_of (nodes net) b \<noteq> None"
    unfolding refs_ok_def by blast+
  then obtain n' where n': "map_of (nodes net) b = Some n'" by auto
  show ?thesis
    using n' r l r' \<open>r' = b\<close> by (simp add: Node_propagate_hop [OF c])
qed

lemma Node_propagate_hop_unwired:
  assumes ok: "refs_ok net" and n: "map_of (nodes net) a = Some n"
    and c: "cells h (path s) = a # b # rest" and hl: "hop_line net a b = None"
  shows "\<exists>k. Node_propagate net n h s = Inl (KeyError k)"
proof (cases "map_of (node_successive n) (node_label n @ b)")
  case None
  then show ?thesis by (simp add: Node_propagate_hop [OF c])
next
  case (Some r)
  with ok n have "map_of (lines net) r \<noteq> None" unfolding refs_ok_def by blast
  then obtain l where l: "map_of (lines net) r = Some l" by auto
  with hl n Some have "map_of (line_successive l) b = None"
    by (auto simp: hop_line_def split: option.splits)
  with Some l show ?thesis by (simp add: Node_propagate_hop [OF c])
qed

lemma Node_propagate_wired:
  "refs_ok net \<Longrightarrow> cells h (path s) = a # rest \<Longrightarrow> map_of (nodes net) a = Some n \<Longrightarrow>
   hops_wired net (a # rest) \<Longrightarrow>
   Node_propagate net n h s =
     Inr (set_cell h (path s) [],
          s\<lparr>latency := latency s + sum_list (map latency_generation (hop_lines net (a # rest))),
            noise_power := noise_power s
              + sum_list (map (\<lambda>l. noise_generation l (signal_power s))
                  (hop_lines net (a # rest)))\<rparr>)"
proof (induction rest arbitrary: a n h s)
  case Nil
  have "s\<lparr>latency := latency s + sum_list (map latency_generation (hop_lines net [a])),
          noise_power := noise_power s
            + sum_list (map (\<lambda>l. noise_generation l (signal_power s)) (hop_lines net [a]))\<rparr>
        = s"
    by simp
  then show ?case using Node_propagate_single [OF Nil.prems(2)] by metis
next
  case (Cons b rest)
  from Cons.prems(4) obtain l where hl: "hop_line net a b = Some l"
    and w: "hops_wired net (b # rest)" by auto
  let ?h1 = "set_cell h (path s) (b # rest)"
  let ?s1 = "s\<lparr>latency := latency s + latency_generation l,
           noise_power := noise_power s + noise_generation l (signal_power s)\<rparr>"
  from Node_propagate_hop_wired [OF Cons.prems(1) Cons.prems(3) Cons.prems(2) hl]
  obtain n' where n': "map_of (nodes net) b = Some n'"
    and step: "Node_propagate net n h s = Node_propagate net n' ?h1 ?s1" by blast
  have c1: "cells ?h1 (path ?s1) = b # rest" by simp
  show ?case
    unfolding step Cons.IH [OF Cons.prems(1) c1 n' w]
    by (simp add: hl add.assoc)
qed

lemma Node_propagate_unwired:
  "refs_ok net \<Longrightarrow> cells h (path s) = a # rest \<Longrightarrow> map_of (nodes net) a = Some n \<Longrightarrow>
   \<not> hops_wired net (a # rest) \<Longrightarrow> \<exists>k. Node_propagate net n h s = Inl (KeyError k)"
proof (induction rest arbitrary: a n h s)
  case Nil
  then show ?case by simp
next
  case (Cons b rest)
  show ?case
  proof (cases "hop_line net a b")
    case None
    from Node_propagate_hop_unwired [OF Cons.prems(1) Cons.prems(3) Cons.prems(2) None]
    show ?thesis .
  next
    case (Some l)
    let ?h1 = "set_cell h (path s) (b # rest)"
    let ?s1 = "s\<lparr>latency := latency s + latency_generation l,
           noise_power := noise_power s + noise_generation l (signal_power s)\<rparr>"
    from Node_propagate_hop_wired [OF Cons.prems(1) Cons.prems(3) Cons.prems(2) Some]
    obtain n' where n': "map_of (nodes net) b = Some n'"
      and step: "Node_propagate net n h s = Node_propagate net n' ?h1 ?s1" by blast
    have c1: "cells ?h1 (path ?s1) = b # rest" by simp
    from Cons.prems(4) Some have nw: "\<not> hops_wired net (b # rest)" by simp
    from Cons.IH [OF Cons.prems(1) c1 n' nw] show ?thesis unfolding step .
  qed
qed

lemma hops_wired_append:
  "hops_wired net (pre @ a # b # post) \<Longrightarrow> hop_line net a b \<noteq> None"
proof (induction pre)
  case Nil
  then show ?case by simp
next
  case (Cons x pre)
  then show ?case by (cases pre) auto
qed

lemma hop_lines_length:
  "hops_wired net p \<Longrightarrow> length (hop_lines net p) = length p - 1"
  by (induction net p rule: hops_wired.induct) auto

lemma hops_wired_first:
  "hops_wired net (x # rest) \<Longrightarrow> map_of (nodes net) x \<noteq> None"
  by (cases rest) (auto simp: hop_line_def split: option.splits)

lemma latency_generation_fun:
  "latency_generation = (\<lambda>l. line_length l / ((2 / 3) * 300000000))"
  by (rule ext) (simp add: latency_generation_def)

text \<open>
  C1. On a Network that has been built and connected, for every power P and every path of
  N >= 2 nodes whose consecutive hops are all wired, Network.propagate of a fresh signal
  (noise 0, latency 0) returns with the path list empty, the latency equal to the sum over
  the N-1 traversed Lines of length / ((2/3) * 3e8), the noise power equal to the sum over
  them of 1e-9 * P * length, and the signal power still P.
\<close>

theorem propagate_wired_path:
  assumes built: "Network_init data = Inr net0" and wired: "connect net0 = Inr net"
    and p: "cells h a = p" and len: "2 \<le> length p" and hops: "hops_wired net p"
  shows "Network_propagate net h \<lparr>signal_power = P, noise_power = 0, latency = 0, path = a\<rparr>
    = Inr (set_cell h a [],
           \<lparr>signal_power = P,
            noise_power = (\<Sum>l\<leftarrow>hop_lines net p. (1 / 10 ^ 9) * P * line_length l),
            latency = (\<Sum>l\<leftarrow>hop_lines net p. line_length l / ((2 / 3) * 300000000)),
            path = a\<rparr>)
    \<and> length (hop_lines net p) = length p - 1"
proof -
  have ok: "refs_ok net"
    using built wired Network_init_refs_ok connect_refs_ok by blast
  let ?s = "\<lparr>signal_power = P, noise_power = 0, latency = 0, path = a\<rparr>"
  obtain x rest where xr: "p = x # rest" using len by (cases p) auto
  from hops xr obtain n where n: "map_of (nodes net) x = Some n"
    using hops_wired_first by blast
  have c: "cells h (path ?s) = x # rest" using p xr by simp
  have "Network_propagate net h ?s = Node_propagate net n h ?s"
    using c n by (simp add: Network_propagate_def)
  also note Node_propagate_wired [OF ok c n hops [unfolded xr]]
  finally show ?thesis
    using hop_lines_length [OF hops]
    by (simp add: xr latency_generation_fun noise_generation_def)
qed

theorem propagate_wired_path_witness:
  "Network_init example_data = Inr example_unwired
   \<and> connect example_unwired = Inr example_net
   \<and> cells (example_heap [''A'', ''B'', ''C'']) 0 = [''A'', ''B'', ''C'']
   \<and> 2 \<le> length [''A'', ''B'', ''C'']
   \<and> hops_wired example_net [''A'', ''B'', ''C'']
   \<and> Network_propagate example_net (example_heap [''A'', ''B'', ''C''])
         \<lparr>signal_power = 1, noise_power = 0, latency = 0, path = 0\<rparr>
       = Inr (example_heap [],
              \<lparr>signal_power = 1, noise_power = 8 / 10 ^ 9, latency = 8 / 200000000, path = 0\<rparr>)"
proof -
  have hl: "hop_line example_net ''A'' ''B'' = map_of (lines example_net) ''AB''"
    "hop_line example_net ''B'' ''C'' = map_of (lines example_net) ''BC''"
    by (simp_all add: hop_line_def example_net_def)
  have w: "hops_wired example_net [''A'', ''B'', ''C'']"
    by (simp add: hl) (simp add: example_net_def)
  have c: "cells (example_heap [''A'', ''B'', ''C'']) 0 = [''A'', ''B'', ''C'']"
    by (simp add: example_heap_def)
  have ls: "hop_lines example_net [''A'', ''B'', ''C''] =
      [\<lparr>line_label = ''AB'', line_length = 3, line_successive = [(''B'', ''B'')]\<rparr>,
       \<lparr>line_label = ''BC'', line_length = 5, line_successive = [(''C'', ''C'')]\<rparr>]"
    by (simp add: hl) (simp add: example_net_def)
  have e: "set_cell (example_heap [''A'', ''B'', ''C'']) 0 [] = example_heap []"
    by (simp add: set_cell_def example_heap_def)
  have len: "2 \<le> length [''A'', ''B'', ''C'']" by simp
  note r = propagate_wired_path [OF example_built example_wired c len w, of 1, unfolded ls e]
  from r example_built example_wired c w show ?thesis by simp
qed

text \<open>
  C4. On a Network that has been built and connected, if the path of a signal contains a
  hop from a node to a next label for which that node has no wired outgoing edge, then
  Network.propagate raises (a KeyError reaches the caller): it does not return a signal.
\<close>

theorem propagate_unwired_hop_fails:
  assumes built: "Network_init data = Inr net0" and wired: "connect net0 = Inr net"
    and p: "cells h (path s) = pre @ a # b # post" and hl: "hop_line net a b = None"
  shows "\<exists>k. Network_propagate net h s = Inl (KeyError k)"
proof -
  have ok: "refs_ok net"
    using built wired Network_init_refs_ok connect_refs_ok by blast
  let ?p = "pre @ a # b # post"
  obtain x rest where xr: "?p = x # rest" by (cases ?p) auto
  have nw: "\<not> hops_wired net (x # rest)"
    using hops_wired_append [of net pre a b post] hl xr by auto
  show ?thesis
  proof (cases "map_of (nodes net) x")
    case None
    then show ?thesis using p xr by (simp add: Network_propagate_def)
  next
    case (Some n)
    from Node_propagate_unwired [OF ok _ Some nw, of h s] p xr Some
    show ?thesis by (simp add: Network_propagate_def)
  qed
qed

theorem propagate_unwired_hop_fails_witness:
  "Network_init example_data = Inr example_unwired
   \<and> connect example_unwired = Inr example_net
   \<and> cells (example_heap [''A'', ''B'', ''A'', ''C'']) 0 = [''A'', ''B''] @ ''A'' # ''C'' # []
   \<and> hop_line example_net ''A'' ''C'' = None
   \<and> Network_propagate example_net (example_heap [''A'', ''B'', ''A'', ''C''])
         \<lparr>signal_power = 1, noise_power = 0, latency = 0, path = 0\<rparr>
       = Inl (KeyError ''AC'')"
proof -
  let ?h = "example_heap [''A'', ''B'', ''A'', ''C'']"
  let ?s = "\<lparr>signal_power = 1, noise_power = 0, latency = 0, path = 0\<rparr>"
  have c: "cells ?h (path ?s) = [''A'', ''B''] @ ''A'' # ''C'' # []"
    by (simp add: example_heap_def)
  have hl: "hop_line example_net ''A'' ''C'' = None"
    by (simp add: hop_line_def example_net_def)
  from propagate_unwired_hop_fails [OF example_built example_wired c hl]
  obtain k where k: "Network_propagate example_net ?h ?s = Inl (KeyError k)" by blast
  have "Network_propagate example_net ?h ?s = Inl (KeyError ''AC'')"
    by (simp add: Network_propagate_def example_heap_def example_net_def
        Node_propagate.simps Line_propagate.simps update_path_def set_cell_def
        update_latency_def update_noise_power_def Let_def)
  with c hl example_built example_wired show ?thesis by simp
qed

section \<open>Correctness of the path enumeration\<close>

lemma adjacency_closedD:
  "adjacency_closed net \<Longrightarrow> map_of (nodes net) a = Some n \<Longrightarrow>
   b \<in> set (node_connected_nodes n) \<Longrightarrow> map_of (nodes net) b \<noteq> None"
  by (auto simp: adjacency_closed_def list_all_iff dest!: map_of_SomeD)

lemma extensions_end:
  assumes "cur \<in> set pth" and "distinct pth"
  shows "extensions net cur cur pth = {pth}"
proof (intro set_eqI iffI)
  fix q assume "q \<in> extensions net cur cur pth"
  then obtain ext where q: "q = pth @ ext" and d: "distinct (pth @ ext)"
    and l: "last (cur # ext) = cur"
    by (auto simp: extensions_def)
  have "ext = []"
  proof (rule ccontr)
    assume ne: "ext \<noteq> []"
    then have "last ext = cur" using l by simp
    moreover have "last ext \<in> set ext" using ne by (rule last_in_set)
    ultimately have "cur \<in> set ext" by simp
    with d assms(1) show False by auto
  qed
  with q show "q \<in> {pth}" by simp
next
  fix q assume "q \<in> {pth}"
  then have "q = pth @ []" by simp
  then show "q \<in> extensions net cur cur pth"
    unfolding extensions_def using assms(2)
    by (intro CollectI exI [of _ "[]"]) simp
qed

lemma extensions_step:
  assumes "cur \<noteq> end_label" and "map_of (nodes net) cur = Some n"
  shows "extensions net end_label cur pth =
    (\<Union>nxt \<in> set (node_connected_nodes n) - set pth. extensions net end_label nxt (pth @ [nxt]))"
proof (intro set_eqI iffI)
  fix q assume "q \<in> extensions net end_label cur pth"
  then obtain ext where q: "q = pth @ ext" and w: "walk net (cur # ext)"
    and d: "distinct (pth @ ext)" and l: "last (cur # ext) = end_label"
    by (auto simp: extensions_def)
  from l assms(1) obtain nxt ext' where e: "ext = nxt # ext'" by (cases ext) auto
  from w e assms(2) have "nxt \<in> set (node_connected_nodes n)" "walk net (nxt # ext')"
    by (auto simp: edge_def)
  moreover from d e have "nxt \<notin> set pth" by auto
  moreover have "q \<in> extensions net end_label nxt (pth @ [nxt])"
    unfolding extensions_def using q e d l \<open>walk net (nxt # ext')\<close>
    by (intro CollectI exI [of _ ext']) auto
  ultimately show "q \<in> (\<Union>nxt \<in> set (node_connected_nodes n) - set pth.
      extensions net end_label nxt (pth @ [nxt]))" by blast
next
  fix q assume "q \<in> (\<Union>nxt \<in> set (node_connected_nodes n) - set pth.
      extensions net end_label nxt (pth @ [nxt]))"
  then obtain nxt ext' where nxt: "nxt \<in> set (node_connected_nodes n)"
    and q: "q = (pth @ [nxt]) @ ext'" and w: "walk net (nxt # ext')"
    and d: "distinct ((pth @ [nxt]) @ ext')" and l: "last (nxt # ext') = end_label"
    by (auto simp: extensions_def)
  show "q \<in> extensions net end_label cur pth"
    unfolding extensions_def using q w d l nxt assms(2)
    by (intro CollectI exI [of _ "nxt # ext'"]) (auto simp: edge_def)
qed

lemma dfs_correct:
  shows "adjacency_closed net \<Longrightarrow> map_of (nodes net) cur \<noteq> None \<Longrightarrow>
         cur \<in> set pth \<Longrightarrow> distinct pth \<Longrightarrow>
         \<exists>qs. dfs net end_label cur pth paths = Inr (paths @ qs)
              \<and> set qs = extensions net end_label cur pth"
    and "adjacency_closed net \<Longrightarrow> \<forall>b \<in> set nbrs. map_of (nodes net) b \<noteq> None \<Longrightarrow>
         distinct pth \<Longrightarrow>
         \<exists>qs. dfs_loop net end_label nbrs pth paths = Inr (paths @ qs)
              \<and> set qs = (\<Union>nxt \<in> set nbrs - set pth. extensions net end_label nxt (pth @ [nxt]))"
proof (induction net end_label cur pth paths and net end_label nbrs pth paths
    rule: dfs_dfs_loop.induct)
  case (1 net end_label cur pth paths)
  show ?case
  proof (cases "cur = end_label")
    case True
    have "dfs net end_label cur pth paths = Inr (paths @ [pth])"
      using True by (simp add: dfs.simps)
    moreover have "set [pth] = extensions net end_label cur pth"
      using True extensions_end [OF "1.prems"(3,4)] by simp
    ultimately show ?thesis by blast
  next
    case False
    from "1.prems"(2) obtain n where n: "map_of (nodes net) cur = Some n" by auto
    have nb: "\<forall>b \<in> set (node_connected_nodes n). map_of (nodes net) b \<noteq> None"
      using adjacency_closedD [OF "1.prems"(1) n] by blast
    from "1.IH" [OF False n "1.prems"(1) nb "1.prems"(4)]
    obtain qs where "dfs_loop net end_label (node_connected_nodes n) pth paths = Inr (paths @ qs)"
      and "set qs = (\<Union>nxt \<in> set (node_connected_nodes n) - set pth.
          extensions net end_label nxt (pth @ [nxt]))" by blast
    then show ?thesis
      using False n extensions_step [OF False n, of pth] by (simp add: dfs.simps [of net end_label cur])
  qed
next
  case (2 net end_label pth paths)
  show ?case by simp
next
  case (3 net end_label nxt rest pth paths)
  have rest_ok: "\<forall>b \<in> set rest. map_of (nodes net) b \<noteq> None" using "3.prems"(2) by simp
  show ?case
  proof (cases "nxt \<in> set pth")
    case True
    from "3.IH"(3) [OF _ "3.prems"(1) rest_ok "3.prems"(3)] True
    obtain qs where "dfs_loop net end_label rest pth paths = Inr (paths @ qs)"
      and "set qs = (\<Union>x \<in> set rest - set pth. extensions net end_label x (pth @ [x]))"
      by auto
    moreover have "set (nxt # rest) - set pth = set rest - set pth" using True by auto
    ultimately show ?thesis using True by simp
  next
    case False
    have "map_of (nodes net) nxt \<noteq> None" using "3.prems"(2) by simp
    from "3.IH"(1) [OF False "3.prems"(1) this] False "3.prems"(3)
    obtain qs1 where d1: "dfs net end_label nxt (pth @ [nxt]) paths = Inr (paths @ qs1)"
      and s1: "set qs1 = extensions net end_label nxt (pth @ [nxt])" by auto
    from "3.IH"(2) [OF False d1 "3.prems"(1) rest_ok "3.prems"(3)]
    obtain qs2 where d2: "dfs_loop net end_label rest pth (paths @ qs1) = Inr ((paths @ qs1) @ qs2)"
      and s2: "set qs2 = (\<Union>x \<in> set rest - set pth. extensions net end_label x (pth @ [x]))"
      by blast
    have "dfs_loop net end_label (nxt # rest) pth paths = Inr (paths @ (qs1 @ qs2))"
      using False d1 d2 by simp
    moreover have "set (qs1 @ qs2) =
        (\<Union>x \<in> set (nxt # rest) - set pth. extensions net end_label x (pth @ [x]))"
      using s1 s2 False by auto
    ultimately show ?thesis by blast
  qed
qed

lemma extensions_start:
  "map_of (nodes net) start \<noteq> None \<Longrightarrow> map_of (nodes net) end_label \<noteq> None \<Longrightarrow>
   extensions net end_label start [start] = {p. simple_path net start end_label p}"
proof (intro set_eqI iffI)
  fix q assume "q \<in> extensions net end_label start [start]"
  then obtain ext where "q = start # ext" "walk net (start # ext)" "distinct (start # ext)"
    "last (start # ext) = end_label"
    by (auto simp: extensions_def)
  moreover assume "map_of (nodes net) start \<noteq> None" "map_of (nodes net) end_label \<noteq> None"
  ultimately show "q \<in> {p. simple_path net start end_label p}"
    by (simp add: simple_path_def)
next
  fix q assume "q \<in> {p. simple_path net start end_label p}"
  then have sp: "simple_path net start end_label q" by simp
  then obtain ext where q: "q = start # ext" by (cases q) (auto simp: simple_path_def)
  show "q \<in> extensions net end_label start [start]"
    unfolding extensions_def using sp q
    by (intro CollectI exI [of _ ext]) (simp add: simple_path_def)
qed

text \<open>
  C3 (as amended). For every topology whose adjacency lists name only nodes of the topology,
  and every pair of labels, find\_paths returns exactly the simple paths from start to end:
  every returned sequence begins with start, ends with end and repeats no node, every
  simple path is returned, and the result is empty whenever start or end is absent or no
  such path exists.
\<close>

theorem find_paths_simple_paths:
  assumes "adjacency_closed net"
  shows "\<exists>ps. find_paths net start end_label = Inr ps
      \<and> (\<forall>p \<in> set ps. p \<noteq> [] \<and> hd p = start \<and> last p = end_label \<and> distinct p)
      \<and> set ps = {p. simple_path net start end_label p}
      \<and> (map_of (nodes net) start = None \<or> map_of (nodes net) end_label = None
           \<or> \<not> (\<exists>p. simple_path net start end_label p) \<longrightarrow> ps = [])"
proof (cases "map_of (nodes net) start = None \<or> map_of (nodes net) end_label = None")
  case True
  then have "find_paths net start end_label = Inr []"
    by (auto simp: find_paths_def)
  moreover have "{p. simple_path net start end_label p} = {}"
    using True by (auto simp: simple_path_def)
  ultimately show ?thesis by simp
next
  case False
  then have s: "map_of (nodes net) start \<noteq> None" and e: "map_of (nodes net) end_label \<noteq> None"
    by auto
  from dfs_correct(1) [OF assms s, of "[start]" end_label "[]"]
  obtain ps where d: "dfs net end_label start [start] [] = Inr ps"
    and ps: "set ps = extensions net end_label start [start]" by auto
  have f: "find_paths net start end_label = Inr ps"
    unfolding find_paths_def using s e d by (simp only: if_False simp_thms)
  have eq: "set ps = {p. simple_path net start end_label p}"
    using ps extensions_start [OF s e] by simp
  have shape: "\<forall>p \<in> set ps. p \<noteq> [] \<and> hd p = start \<and> last p = end_label \<and> distinct p"
    using eq by (auto simp: simple_path_def)
  have none: "map_of (nodes net) start = None \<or> map_of (nodes net) end_label = None
       \<or> \<not> (\<exists>p. simple_path net start end_label p) \<longrightarrow> ps = []"
  proof
    assume "map_of (nodes net) start = None \<or> map_of (nodes net) end_label = None
       \<or> \<not> (\<exists>p. simple_path net start end_label p)"
    with s e have "{p. simple_path net start end_label p} = {}" by auto
    with eq show "ps = []" by simp
  qed
  show ?thesis
    by (rule exI [of _ ps]) (intro conjI f shape eq none)
qed

text \<open>
  C3 as stated, for every topology, fails: in the topology built from
  \<open>dangling_data\<close>, [A, C] is a simple path from A to C, and find\_paths raises KeyError
  on the absent neighbour B, which comes first in A's adjacency list.
\<close>

theorem find_paths_dangling_neighbour:
  "Network_init dangling_data = Inr dangling_net
   \<and> simple_path dangling_net ''A'' ''C'' [''A'', ''C'']
   \<and> find_paths dangling_net ''A'' ''C'' = Inl (KeyError ''B'')"
  by (simp add: dangling_data_def dangling_net_def Network_init_def setdefault_label_def
      Node_init_def simple_path_def edge_def find_paths_def dfs.simps)

theorem find_paths_simple_paths_witness:
  "adjacency_closed example_net
   \<and> find_paths example_net ''A'' ''C'' = Inr [[''A'', ''B'', ''C'']]
   \<and> {p. simple_path example_net ''A'' ''C'' p} = {[''A'', ''B'', ''C'']}"
proof -
  have c: "adjacency_closed example_net"
    by (simp add: adjacency_closed_def example_net_def)
  have f: "find_paths example_net ''A'' ''C'' = Inr [[''A'', ''B'', ''C'']]"
    by (simp add: find_paths_def example_net_def dfs.simps)
  from find_paths_simple_paths [OF c, of "''A''" "''C''"] f
  have "{p. simple_path example_net ''A'' ''C'' p} = {[''A'', ''B'', ''C'']}" by auto
  with c f show ?thesis by simp
qed

section \<open>Network.connect\<close>

subsection \<open>The first loop\<close>

lemma connect_create_inner_facts:
  "connect_create_inner a ax ay bs net = Inr net' \<Longrightarrow>
   nodes net' = nodes net
   \<and> (\<forall>k. map_of (lines net) k \<noteq> None \<longrightarrow> map_of (lines net') k \<noteq> None)
   \<and> (\<forall>b \<in> set bs. map_of (lines net') (a @ b) \<noteq> None \<and> position_ok net b)"
proof (induction bs arbitrary: net)
  case Nil
  then show ?case by simp
next
  case (Cons b bs)
  from Cons.prems obtain nb bx "by" where
    nb: "map_of (nodes net) b = Some nb" and xy: "unpack2 (node_position nb) = Inr (bx, by)"
    by (auto split: option.splits sum.splits)
  define net1 where "net1 =
    (if map_of (lines net) (a @ b) = None
     then net\<lparr>lines := AList.update (a @ b) (Line_init (a @ b) (hypot (bx - ax) (by - ay)))
        (lines net)\<rparr>
     else net)"
  have rest: "connect_create_inner a ax ay bs net1 = Inr net'"
    using Cons.prems nb xy by (simp add: net1_def Let_def)
  have n1: "nodes net1 = nodes net" by (simp add: net1_def)
  have l1: "map_of (lines net1) (a @ b) \<noteq> None" by (simp add: net1_def update_conv')
  have m1: "map_of (lines net) k \<noteq> None \<Longrightarrow> map_of (lines net1) k \<noteq> None" for k
    by (simp add: net1_def update_conv')
  have pb: "position_ok net b" using nb xy by (simp add: position_ok_def)
  have po: "position_ok net1 x = position_ok net x" for x
    by (simp add: position_ok_def n1)
  from Cons.IH [OF rest] n1 l1 m1 pb po show ?case by auto
qed

lemma connect_create_facts:
  "connect_create es net = Inr net' \<Longrightarrow>
   nodes net' = nodes net
   \<and> (\<forall>k. map_of (lines net) k \<noteq> None \<longrightarrow> map_of (lines net') k \<noteq> None)
   \<and> (\<forall>(a, n) \<in> set es. create_done net' a n)"
proof (induction es arbitrary: net)
  case Nil
  then show ?case by simp
next
  case (Cons e es)
  obtain a n where e: "e = (a, n)" by (cases e)
  from Cons.prems obtain ax ay net1 where
    xy: "unpack2 (node_position n) = Inr (ax, ay)" and
    inner: "connect_create_inner a ax ay (node_connected_nodes n) net = Inr net1" and
    rest: "connect_create es net1 = Inr net'"
    by (auto simp: e split: sum.splits)
  note f1 = connect_create_inner_facts [OF inner]
  note f2 = Cons.IH [OF rest]
  have po: "position_ok net' x = position_ok net x" for x
    using f1 f2 by (simp add: position_ok_def)
  have "create_done net' a n"
    unfolding create_done_def using xy f1 f2 po by auto
  with f1 f2 show ?case by (auto simp: e)
qed

lemma connect_create_inner_done:
  "\<forall>b \<in> set bs. map_of (lines net) (a @ b) \<noteq> None \<and> position_ok net b \<Longrightarrow>
   connect_create_inner a ax ay bs net = Inr net"
  by (induction bs) (auto simp: position_ok_def Let_def split: option.splits sum.splits)

lemma connect_create_done:
  "\<forall>(a, n) \<in> set es. create_done net a n \<Longrightarrow> connect_create es net = Inr net"
proof (induction es)
  case Nil
  then show ?case by simp
next
  case (Cons e es)
  obtain a n where e: "e = (a, n)" by (cases e)
  from Cons.prems e have d: "create_done net a n" by simp
  then obtain ax ay where xy: "unpack2 (node_position n) = Inr (ax, ay)"
    by (auto simp: create_done_def split: sum.splits)
  from d have "connect_create_inner a ax ay (node_connected_nodes n) net = Inr net"
    by (intro connect_create_inner_done) (simp add: create_done_def)
  with xy Cons show ?case by (simp add: e)
qed

subsection \<open>The second loop\<close>

lemma connect_wire_inner_Cons:
  "connect_wire_inner a (b # bs) net =
     (case map_of (lines net) (a @ b) of
        None \<Rightarrow> Inl (KeyError (a @ b))
      | Some l \<Rightarrow>
          (case map_of (nodes net) b of
             None \<Rightarrow> Inl (KeyError b)
           | Some nb \<Rightarrow> connect_wire_inner a bs (wire_step a b net)))"
proof (cases "map_of (lines net) (a @ b)")
  case None
  then show ?thesis by simp
next
  case l: (Some l)
  let ?nodes1 = "AList.map_entry a
      (\<lambda>n. n\<lparr>node_successive := AList.update (a @ b) (a @ b) (node_successive n)\<rparr>)
      (nodes net)"
  show ?thesis
  proof (cases "map_of (nodes net) b")
    case None
    then have "map_of ?nodes1 b = None" by (simp add: map_of_map_entry_None)
    with l None show ?thesis by (simp add: Let_def)
  next
    case (Some nb)
    then have "map_of ?nodes1 b \<noteq> None" by (simp add: map_of_map_entry_None)
    then obtain nb' where "map_of ?nodes1 b = Some nb'" by auto
    with l Some show ?thesis by (simp add: Let_def wire_step_def)
  qed
qed

declare connect_wire_inner.simps(2) [simp del]

lemma map_entry_keep:
  "(\<And>v. g (f v) = g v) \<Longrightarrow>
   map (\<lambda>(k, v). (k, g v)) (AList.map_entry a f xs) = map (\<lambda>(k, v). (k, g v)) xs"
  by (induction xs) auto

lemma map_entry_triv:
  "map_of xs a = Some v \<Longrightarrow> f v = v \<Longrightarrow> AList.map_entry a f xs = xs"
  by (induction xs) (auto split: if_splits)

lemma wire_step_skeleton: "skeleton (wire_step a b net) = skeleton net"
proof -
  have "map (\<lambda>(k, n). (k, node_position n, node_connected_nodes n))
      (AList.map_entry a
        (\<lambda>n. n\<lparr>node_successive := AList.update (a @ b) (a @ b) (node_successive n)\<rparr>)
        (nodes net))
    = map (\<lambda>(k, n). (k, node_position n, node_connected_nodes n)) (nodes net)"
    by (rule map_entry_keep) simp
  then show ?thesis by (simp add: skeleton_def wire_step_def)
qed

lemma wire_step_lines_dom:
  "map_of (lines (wire_step a b net)) k = None \<longleftrightarrow> map_of (lines net) k = None"
  by (simp add: wire_step_def map_of_map_entry_None)

lemma wire_step_nodes_dom:
  "map_of (nodes (wire_step a b net)) k = None \<longleftrightarrow> map_of (nodes net) k = None"
  by (simp add: wire_step_def map_of_map_entry_None)

lemma wire_step_nodes:
  "map_of (nodes (wire_step a b net)) x =
     map_option
       (\<lambda>n. if x = a
            then n\<lparr>node_successive := AList.update (a @ b) (a @ b) (node_successive n)\<rparr>
            else n)
       (map_of (nodes net) x)"
  by (cases "map_of (nodes net) x") (auto simp: wire_step_def map_of_map_entry)

lemma wire_step_lines:
  "map_of (lines (wire_step a b net)) k =
     map_option
       (\<lambda>l. if k = a @ b
            then l\<lparr>line_successive := AList.update b b (line_successive l)\<rparr>
            else l)
       (map_of (lines net) k)"
  by (cases "map_of (lines net) k") (auto simp: wire_step_def map_of_map_entry)

lemma wire_step_mono:
  assumes "wired_ok net x y"
  shows "wired_ok (wire_step a b net) x y"
proof -
  from assms obtain n l nb where n: "map_of (nodes net) x = Some n"
    and sn: "map_of (node_successive n) (x @ y) = Some (x @ y)"
    and l: "map_of (lines net) (x @ y) = Some l"
    and sl: "map_of (line_successive l) y = Some y"
    and nb: "map_of (nodes net) y = Some nb"
    by (auto simp: wired_ok_def split: option.splits)
  show ?thesis
    unfolding wired_ok_def using sn sl
    by (auto simp add: wire_step_nodes wire_step_lines n l nb update_conv')
qed

lemma wire_step_new:
  assumes "map_of (nodes net) a \<noteq> None" and "map_of (lines net) (a @ b) \<noteq> None"
    and "map_of (nodes net) b \<noteq> None"
  shows "wired_ok (wire_step a b net) a b"
proof -
  from assms obtain n l nb where n: "map_of (nodes net) a = Some n"
    and l: "map_of (lines net) (a @ b) = Some l" and nb: "map_of (nodes net) b = Some nb"
    by auto
  show ?thesis
    unfolding wired_ok_def
    by (simp add: wire_step_nodes wire_step_lines n l nb update_conv')
qed

lemma wire_step_id: "wired_ok net a b \<Longrightarrow> wire_step a b net = net"
proof -
  assume w: "wired_ok net a b"
  then obtain n l where n: "map_of (nodes net) a = Some n"
    and sn: "map_of (node_successive n) (a @ b) = Some (a @ b)"
    and l: "map_of (lines net) (a @ b) = Some l"
    and sl: "map_of (line_successive l) b = Some b"
    by (auto simp: wired_ok_def split: option.splits)
  have "AList.map_entry a
      (\<lambda>n. n\<lparr>node_successive := AList.update (a @ b) (a @ b) (node_successive n)\<rparr>) (nodes net)
      = nodes net"
    using n by (rule map_entry_triv) (simp add: update_triv [OF sn])
  moreover have "AList.map_entry (a @ b)
      (\<lambda>l. l\<lparr>line_successive := AList.update b b (line_successive l)\<rparr>) (lines net)
      = lines net"
    using l by (rule map_entry_triv) (simp add: update_triv [OF sl])
  ultimately show ?thesis by (simp add: wire_step_def)
qed

lemma connect_wire_inner_facts:
  "connect_wire_inner a bs net = Inr net' \<Longrightarrow> map_of (nodes net) a \<noteq> None \<Longrightarrow>
   skeleton net' = skeleton net
   \<and> (\<forall>k. map_of (lines net') k = None \<longleftrightarrow> map_of (lines net) k = None)
   \<and> (\<forall>k. map_of (nodes net') k = None \<longleftrightarrow> map_of (nodes net) k = None)
   \<and> (\<forall>x y. wired_ok net x y \<longrightarrow> wired_ok net' x y)
   \<and> (\<forall>b \<in> set bs. wired_ok net' a b)"
proof (induction bs arbitrary: net)
  case Nil
  then show ?case by simp
next
  case (Cons b bs)
  from Cons.prems(1) have lab: "map_of (lines net) (a @ b) \<noteq> None"
    and nb: "map_of (nodes net) b \<noteq> None"
    and rest: "connect_wire_inner a bs (wire_step a b net) = Inr net'"
    by (auto simp: connect_wire_inner_Cons split: option.splits)
  have a1: "map_of (nodes (wire_step a b net)) a \<noteq> None"
    using Cons.prems(2) by (simp add: wire_step_nodes_dom)
  note ih = Cons.IH [OF rest a1]
  have new: "wired_ok net' a b"
    using ih wire_step_new [OF Cons.prems(2) lab nb] by blast
  have mono: "wired_ok net' x y" if "wired_ok net x y" for x y
    using ih wire_step_mono [OF that] by blast
  show ?case
    using ih new mono
    by (simp add: wire_step_skeleton wire_step_lines_dom wire_step_nodes_dom)
qed

lemma connect_wire_facts:
  "connect_wire es net = Inr net' \<Longrightarrow> \<forall>(a, n) \<in> set es. map_of (nodes net) a \<noteq> None \<Longrightarrow>
   skeleton net' = skeleton net
   \<and> (\<forall>k. map_of (lines net') k = None \<longleftrightarrow> map_of (lines net) k = None)
   \<and> (\<forall>k. map_of (nodes net') k = None \<longleftrightarrow> map_of (nodes net) k = None)
   \<and> (\<forall>x y. wired_ok net x y \<longrightarrow> wired_ok net' x y)
   \<and> (\<forall>(a, n) \<in> set es. \<forall>b \<in> set (node_connected_nodes n). wired_ok net' a b)"
proof (induction es arbitrary: net)
  case Nil
  then show ?case by simp
next
  case (Cons e es)
  obtain a n where e: "e = (a, n)" by (cases e)
  from Cons.prems(1) obtain net1 where
    inner: "connect_wire_inner a (node_connected_nodes n) net = Inr net1" and
    rest: "connect_wire es net1 = Inr net'"
    by (auto simp: e split: sum.splits)
  have a0: "map_of (nodes net) a \<noteq> None" using Cons.prems(2) e by simp
  note f1 = connect_wire_inner_facts [OF inner a0]
  have "\<forall>(a, n) \<in> set es. map_of (nodes net1) a \<noteq> None"
    using Cons.prems(2) f1 by auto
  note f2 = Cons.IH [OF rest this]
  show ?case using f1 f2 by (auto simp: e)
qed

lemma connect_wire_inner_done:
  "\<forall>b \<in> set bs. wired_ok net a b \<Longrightarrow> connect_wire_inner a bs net = Inr net"
proof (induction bs)
  case Nil
  then show ?case by simp
next
  case (Cons b bs)
  then have w: "wired_ok net a b" by simp
  then have "map_of (lines net) (a @ b) \<noteq> None" "map_of (nodes net) b \<noteq> None"
    by (auto simp: wired_ok_def split: option.splits)
  with Cons show ?case
    by (auto simp: connect_wire_inner_Cons wire_step_id [OF w] split: option.splits)
qed

lemma connect_wire_done:
  "\<forall>(a, n) \<in> set es. \<forall>b \<in> set (node_connected_nodes n). wired_ok net a b \<Longrightarrow>
   connect_wire es net = Inr net"
  by (induction es) (auto simp: connect_wire_inner_done)

subsection \<open>A second call\<close>

lemma skeleton_entry:
  assumes "skeleton net' = skeleton net" and "(a, n') \<in> set (nodes net')"
  shows "\<exists>n. (a, n) \<in> set (nodes net) \<and> node_position n = node_position n'
      \<and> node_connected_nodes n = node_connected_nodes n'"
proof -
  from assms(2) have "(a, node_position n', node_connected_nodes n') \<in> set (skeleton net')"
    by (force simp: skeleton_def)
  with assms(1) have "(a, node_position n', node_connected_nodes n') \<in> set (skeleton net)"
    by simp
  then show ?thesis by (auto simp: skeleton_def)
qed

lemma map_of_skeleton:
  "map_of (skeleton net) b =
     map_option (\<lambda>n. (node_position n, node_connected_nodes n)) (map_of (nodes net) b)"
proof -
  have "map_of (map (\<lambda>(k, n). (k, node_position n, node_connected_nodes n)) xs) b =
      map_option (\<lambda>n. (node_position n, node_connected_nodes n)) (map_of xs b)" for xs
    by (induction xs) auto
  then show ?thesis by (simp add: skeleton_def)
qed

lemma skeleton_position_ok:
  assumes "skeleton net' = skeleton net"
  shows "position_ok net' b = position_ok net b"
proof -
  have "position_ok m b =
      (case map_of (skeleton m) b of
         None \<Rightarrow> False
       | Some pc \<Rightarrow> (case unpack2 (fst pc) of Inl e \<Rightarrow> False | Inr xy \<Rightarrow> True))" for m
    by (simp add: position_ok_def map_of_skeleton split: option.splits)
  then show ?thesis using assms by simp
qed

text \<open>
  C9. Calling connect() on a Network on which connect() has completed changes nothing: it
  returns without error and the Network (the Line objects, their lengths, and the
  successive dictionaries of every Node and Line) is the same as after the first call.
\<close>

theorem connect_twice_same:
  assumes "connect net = Inr net'"
  shows "connect net' = Inr net'"
proof -
  from assms obtain net1 where
    c: "connect_create (nodes net) net = Inr net1" and
    w: "connect_wire (nodes net1) net1 = Inr net'"
    by (auto simp: connect_def split: sum.splits)
  note f1 = connect_create_facts [OF c]
  have "map_of (nodes net1) a \<noteq> None" if "(a, n) \<in> set (nodes net1)" for a n
  proof -
    from that have "a \<in> fst ` set (nodes net1)" by force
    then show ?thesis by (simp add: map_of_eq_None_iff)
  qed
  then have "\<forall>(a, n) \<in> set (nodes net1). map_of (nodes net1) a \<noteq> None" by auto
  note f2 = connect_wire_facts [OF w this]
  from f2 have sk: "skeleton net' = skeleton net1" by simp
  have created: "\<forall>(a, n') \<in> set (nodes net'). create_done net' a n'"
  proof (intro ballI, clarify)
    fix a n' assume "(a, n') \<in> set (nodes net')"
    from skeleton_entry [OF sk this] obtain n where n: "(a, n) \<in> set (nodes net1)"
      and eq: "node_position n = node_position n'"
        "node_connected_nodes n = node_connected_nodes n'" by blast
    from f1 n have "create_done net1 a n" by auto
    then show "create_done net' a n'"
      using f2 eq by (simp add: create_done_def skeleton_position_ok [OF sk])
  qed
  have wired: "\<forall>(a, n') \<in> set (nodes net'). \<forall>b \<in> set (node_connected_nodes n'). wired_ok net' a b"
  proof (intro ballI, clarify)
    fix a n' b assume "(a, n') \<in> set (nodes net')" and b: "b \<in> set (node_connected_nodes n')"
    from skeleton_entry [OF sk this(1)] obtain n where n: "(a, n) \<in> set (nodes net1)"
      and eq: "node_connected_nodes n = node_connected_nodes n'" by blast
    with f2 b show "wired_ok net' a b" by auto
  qed
  show ?thesis
    by (simp add: connect_def connect_create_done [OF created] connect_wire_done [OF wired])
qed

theorem connect_twice_same_witness:
  "connect example_unwired = Inr example_net \<and> connect example_net = Inr example_net"
  using connect_twice_same [OF example_wired] example_wired by simp

subsection \<open>The Lines that connect creates\<close>

lemma skeleton_nodes_eq: "nodes net' = nodes net \<Longrightarrow> skeleton net' = skeleton net"
  by (simp add: skeleton_def)

lemma connect_create_inner_correct:
  "connect_create_inner a ax ay bs net = Inr net' \<Longrightarrow>
   map_of (nodes net) a = Some n \<Longrightarrow> unpack2 (node_position n) = Inr (ax, ay) \<Longrightarrow>
   set bs \<subseteq> set (node_connected_nodes n) \<Longrightarrow> lines_correct net \<Longrightarrow> lines_correct net'"
proof (induction bs arbitrary: net)
  case Nil
  then show ?case by simp
next
  case (Cons b bs)
  from Cons.prems(1) obtain nb bx "by" where
    nb: "map_of (nodes net) b = Some nb" and xy: "unpack2 (node_position nb) = Inr (bx, by)"
    by (auto split: option.splits sum.splits)
  define ln where "ln = Line_init (a @ b) (hypot (bx - ax) (by - ay))"
  define net1 where "net1 =
    (if map_of (lines net) (a @ b) = None
     then net\<lparr>lines := AList.update (a @ b) ln (lines net)\<rparr> else net)"
  have rest: "connect_create_inner a ax ay bs net1 = Inr net'"
    using Cons.prems(1) nb xy
    by (cases "map_of (lines net) (a @ b) = None") (auto simp: net1_def ln_def Let_def)
  have n1: "nodes net1 = nodes net" by (simp add: net1_def)
  have sk: "skeleton net1 = skeleton net" using n1 by (rule skeleton_nodes_eq)
  have new: "line_correct (skeleton net) (a @ b) ln"
    unfolding line_correct_def
    using Cons.prems(2,3,4) nb xy
    by (intro exI [of _ a] exI [of _ "node_position n"] exI [of _ "node_connected_nodes n"]
        exI [of _ b] exI [of _ "node_position nb"] exI [of _ "node_connected_nodes nb"]
        exI [of _ ax] exI [of _ ay] exI [of _ bx] exI [of _ "by"])
      (simp add: map_of_skeleton ln_def Line_init_def)
  have "lines_correct net1"
    unfolding lines_correct_def sk
    using Cons.prems(5) new
    by (auto simp: net1_def lines_correct_def update_conv' split: if_splits)
  from Cons.IH [OF rest _ Cons.prems(3) _ this] Cons.prems(2,4) n1 show ?case by simp
qed

lemma connect_create_correct:
  "connect_create es net = Inr net' \<Longrightarrow> \<forall>(a, n) \<in> set es. map_of (nodes net) a = Some n \<Longrightarrow>
   lines_correct net \<Longrightarrow> lines_correct net'"
proof (induction es arbitrary: net)
  case Nil
  then show ?case by simp
next
  case (Cons e es)
  obtain a n where e: "e = (a, n)" by (cases e)
  from Cons.prems(1) obtain ax ay net1 where
    xy: "unpack2 (node_position n) = Inr (ax, ay)" and
    inner: "connect_create_inner a ax ay (node_connected_nodes n) net = Inr net1" and
    rest: "connect_create es net1 = Inr net'"
    by (auto simp: e split: sum.splits)
  have an: "map_of (nodes net) a = Some n" using Cons.prems(2) e by simp
  have c1: "lines_correct net1"
    using connect_create_inner_correct [OF inner an xy _ Cons.prems(3)] by simp
  have "nodes net1 = nodes net" using connect_create_inner_facts [OF inner] by simp
  with Cons.prems(2) have "\<forall>(a, n) \<in> set es. map_of (nodes net1) a = Some n" by simp
  from Cons.IH [OF rest this c1] show ?case .
qed

lemma wire_step_correct: "lines_correct net \<Longrightarrow> lines_correct (wire_step a b net)"
  unfolding lines_correct_def wire_step_skeleton
  by (auto simp: wire_step_lines line_correct_def)

lemma connect_wire_inner_correct:
  "connect_wire_inner a bs net = Inr net' \<Longrightarrow> lines_correct net \<Longrightarrow> lines_correct net'"
proof (induction bs arbitrary: net)
  case Nil
  then show ?case by simp
next
  case (Cons b bs)
  from Cons.prems(1) have "connect_wire_inner a bs (wire_step a b net) = Inr net'"
    by (auto simp: connect_wire_inner_Cons split: option.splits)
  from Cons.IH [OF this wire_step_correct [OF Cons.prems(2)]] show ?case .
qed

lemma connect_wire_correct:
  "connect_wire es net = Inr net' \<Longrightarrow> lines_correct net \<Longrightarrow> lines_correct net'"
proof (induction es arbitrary: net)
  case Nil
  then show ?case by simp
next
  case (Cons e es)
  obtain a n where e: "e = (a, n)" by (cases e)
  from Cons.prems(1) obtain net1 where
    "connect_wire_inner a (node_connected_nodes n) net = Inr net1"
    "connect_wire es net1 = Inr net'"
    by (auto simp: e split: sum.splits)
  with Cons.IH Cons.prems(2) connect_wire_inner_correct show ?case by blast
qed

lemma Network_init_loop_distinct:
  "Network_init_loop data net = Inr net' \<Longrightarrow> distinct (map fst (nodes net)) \<Longrightarrow>
   distinct (map fst (nodes net'))"
proof (induction data arbitrary: net)
  case Nil
  then show ?case by simp
next
  case (Cons e data)
  obtain k nd where e: "e = (k, nd)" by (cases e)
  from Cons.prems(1) obtain n where
    rest: "Network_init_loop data (net\<lparr>nodes := AList.update k n (nodes net)\<rparr>) = Inr net'"
    by (auto simp: e split: sum.splits)
  from Cons.IH [OF rest] Cons.prems(2) show ?case by (simp add: distinct_update)
qed

lemma Network_init_fresh:
  assumes "Network_init data = Inr net"
  shows "distinct (map fst (nodes net))" and "lines net = []"
  using assms Network_init_loop_distinct [of data "\<lparr>nodes = [], lines = []\<rparr>" net]
    Network_init_loop_unwired [of data "\<lparr>nodes = [], lines = []\<rparr>" net]
  by (simp_all add: Network_init_def)

lemma connect_facts:
  assumes c: "connect net0 = Inr net" and d: "distinct (map fst (nodes net0))"
    and l: "lines_correct net0"
  shows "skeleton net = skeleton net0" and "lines_correct net"
    and "\<forall>(a, n) \<in> set (nodes net0). \<forall>b \<in> set (node_connected_nodes n). wired_ok net a b"
proof -
  from c obtain net1 where
    cr: "connect_create (nodes net0) net0 = Inr net1" and
    w: "connect_wire (nodes net1) net1 = Inr net"
    by (auto simp: connect_def split: sum.splits)
  have look: "\<forall>(a, n) \<in> set (nodes net0). map_of (nodes net0) a = Some n"
    using d by auto
  note f1 = connect_create_facts [OF cr]
  from f1 have n1: "nodes net1 = nodes net0" by simp
  have "\<forall>(a, n) \<in> set (nodes net1). map_of (nodes net1) a \<noteq> None"
    using look n1 by auto
  note f2 = connect_wire_facts [OF w this]
  show "skeleton net = skeleton net0"
    using f2 skeleton_nodes_eq [OF n1] by simp
  show "lines_correct net"
    using connect_wire_correct [OF w connect_create_correct [OF cr look l]] .
  show "\<forall>(a, n) \<in> set (nodes net0). \<forall>b \<in> set (node_connected_nodes n). wired_ok net a b"
    using f2 n1 by simp
qed

lemma unpack2_Inr: "unpack2 xs = Inr (x, y) \<Longrightarrow> xs = [x, y]"
  by (auto simp: unpack2_def split: list.splits)

lemma skeleton_edge:
  "map_of (skeleton net) a = Some (pa, ca) \<Longrightarrow> b \<in> set ca \<Longrightarrow> edge net a b"
  by (auto simp: map_of_skeleton edge_def)

text \<open>
  When the keys are unambiguous, connect on a freshly built Network gives every adjacency
  (a, b) its Line: stored under \<open>a @ b\<close>, labelled so, of the Euclidean distance between
  the two positions, holding node b under \<open>b\<close>, and held by node a under \<open>a @ b\<close>.
  Labels of one common length (single characters, as in the documented JSON) are
  unambiguous.
\<close>

lemma connect_unambiguous_keys:
  assumes built: "Network_init data = Inr net0" and wired: "connect net0 = Inr net"
    and unamb: "keys_unambiguous net0"
    and na: "map_of (nodes net0) a = Some na" and b: "b \<in> set (node_connected_nodes na)"
  shows "\<exists>l nb ax ay bx by na'.
      map_of (lines net) (a @ b) = Some l \<and> line_label l = a @ b
      \<and> map_of (nodes net0) b = Some nb
      \<and> node_position na = [ax, ay] \<and> node_position nb = [bx, by]
      \<and> line_length l = sqrt ((bx - ax)\<^sup>2 + (by - ay)\<^sup>2)
      \<and> map_of (line_successive l) b = Some b
      \<and> map_of (nodes net) a = Some na'
      \<and> map_of (node_successive na') (a @ b) = Some (a @ b)"
proof -
  note fresh = Network_init_fresh [OF built]
  have l0: "lines_correct net0" using fresh(2) by (simp add: lines_correct_def)
  note f = connect_facts [OF wired fresh(1) l0]
  from na have "(a, na) \<in> set (nodes net0)" by (rule map_of_SomeD)
  with f(3) b have "wired_ok net a b" by auto
  then obtain na' l where na': "map_of (nodes net) a = Some na'"
    and sn: "map_of (node_successive na') (a @ b) = Some (a @ b)"
    and l: "map_of (lines net) (a @ b) = Some l"
    and sl: "map_of (line_successive l) b = Some b"
    by (auto simp: wired_ok_def split: option.splits)
  from f(2) l have "line_correct (skeleton net0) (a @ b) l"
    by (simp add: lines_correct_def f(1))
  then obtain a' pa ca b' pb cb ax ay bx "by" where
    ska: "map_of (skeleton net0) a' = Some (pa, ca)" and b': "b' \<in> set ca"
    and skb: "map_of (skeleton net0) b' = Some (pb, cb)" and k: "a @ b = a' @ b'"
    and ua: "unpack2 pa = Inr (ax, ay)" and ub: "unpack2 pb = Inr (bx, by)"
    and lab: "line_label l = a @ b" and len: "line_length l = hypot (bx - ax) (by - ay)"
    unfolding line_correct_def by blast
  have "edge net0 a b" using na b by (simp add: edge_def)
  moreover have "edge net0 a' b'" using ska b' by (rule skeleton_edge)
  ultimately have eq: "a = a'" "b = b'"
    using unamb k unfolding keys_unambiguous_def by blast+
  from ska eq na have pa: "pa = node_position na" by (simp add: map_of_skeleton)
  from skb eq obtain nb where nb: "map_of (nodes net0) b = Some nb"
    and pb: "pb = node_position nb" by (auto simp: map_of_skeleton)
  show ?thesis
    using l lab nb unpack2_Inr [OF ua] unpack2_Inr [OF ub] pa pb len sl na' sn
    by (auto simp: hypot_def)
qed

lemma same_length_unambiguous:
  assumes "\<forall>(k, n) \<in> set (nodes net). length k = m"
  shows "keys_unambiguous net"
proof -
  have "length a = m" if "edge net a b" for a b
  proof -
    from that obtain n where "map_of (nodes net) a = Some n"
      by (auto simp: edge_def split: option.splits)
    then have "(a, n) \<in> set (nodes net)" by (rule map_of_SomeD)
    with assms show ?thesis by auto
  qed
  then show ?thesis unfolding keys_unambiguous_def by (metis append_eq_append_conv)
qed

lemma example_unambiguous: "keys_unambiguous example_unwired"
  by (rule same_length_unambiguous [of _ 1]) (simp add: example_unwired_def)

lemma collision_built: "Network_init collision_data = Inr collision_unwired"
  by (simp add: Network_init_def collision_data_def collision_unwired_def Node_init_def
      setdefault_label_def)

lemma hypot_collision: "hypot (3 - 0) (4 - 0) = 5" "hypot (0 - 0) (0 - 1) = 1"
  by (rule hypot_eval; simp)+

text \<open>
  C6. After connect() every adjacency (A, B) should have exactly one Line of its own, keyed
  by the ordered pair, of the Euclidean distance between the two positions, held by A
  under that key and holding B under B's label. On the topology \<open>collision_data\<close> the
  code does otherwise: after connect() there is a single Line, of key ABA, for the two
  adjacencies A -> BA and AB -> A. It was created for A -> BA with length 5; the adjacency
  AB -> A finds the key present, so the Line it is wired to has length 5 where the
  distance from AB(0,1) to A(0,0) is 1, and that Line's successive holds two nodes.
\<close>

theorem connect_key_collision:
  "Network_init collision_data = Inr collision_unwired
   \<and> connect collision_unwired = Inr collision_net
   \<and> map fst (lines collision_net) = [''ABA'']
   \<and> map_of (lines collision_net) (''AB'' @ ''A'') =
       Some \<lparr>line_label = ''ABA'', line_length = 5,
             line_successive = [(''BA'', ''BA''), (''A'', ''A'')]\<rparr>
   \<and> hypot (0 - 0) (0 - 1) = 1"
proof -
  have "connect collision_unwired = Inr collision_net"
    using hypot_collision(1)
    by (simp add: connect_def collision_unwired_def collision_net_def unpack2_def
        connect_wire_inner_Cons wire_step_def Line_init_def Let_def)
  then show ?thesis
    using collision_built hypot_collision(2) by (simp add: collision_net_def)
qed

subsection \<open>Adjacencies and wired hops\<close>

lemma map_of_labels_of:
  "map_of (labels_of net) a = map_option node_label (map_of (nodes net) a)"
proof -
  have "map_of (map (\<lambda>(k, n). (k, node_label n)) xs) a = map_option node_label (map_of xs a)"
    for xs
    by (induction xs) auto
  then show ?thesis by (simp add: labels_of_def)
qed

lemma wire_step_labels: "labels_of (wire_step a b net) = labels_of net"
proof -
  have "map (\<lambda>(k, n). (k, node_label n))
      (AList.map_entry a
        (\<lambda>n. n\<lparr>node_successive := AList.update (a @ b) (a @ b) (node_successive n)\<rparr>)
        (nodes net))
    = map (\<lambda>(k, n). (k, node_label n)) (nodes net)"
    by (rule map_entry_keep) simp
  then show ?thesis by (simp add: labels_of_def wire_step_def)
qed

lemma connect_wire_inner_labels:
  "connect_wire_inner a bs net = Inr net' \<Longrightarrow> labels_of net' = labels_of net"
proof (induction bs arbitrary: net)
  case Nil
  then show ?case by simp
next
  case (Cons b bs)
  from Cons.prems have "connect_wire_inner a bs (wire_step a b net) = Inr net'"
    by (auto simp: connect_wire_inner_Cons split: option.splits)
  from Cons.IH [OF this] show ?case by (simp add: wire_step_labels)
qed

lemma connect_wire_labels:
  "connect_wire es net = Inr net' \<Longrightarrow> labels_of net' = labels_of net"
proof (induction es arbitrary: net)
  case Nil
  then show ?case by simp
next
  case (Cons e es)
  obtain a n where e: "e = (a, n)" by (cases e)
  from Cons.prems obtain net1 where
    "connect_wire_inner a (node_connected_nodes n) net = Inr net1"
    "connect_wire es net1 = Inr net'"
    by (auto simp: e split: sum.splits)
  with Cons.IH connect_wire_inner_labels show ?case by metis
qed

lemma connect_labels: "connect net = Inr net' \<Longrightarrow> labels_of net' = labels_of net"
proof -
  assume "connect net = Inr net'"
  then obtain net1 where
    cr: "connect_create (nodes net) net = Inr net1" and
    w: "connect_wire (nodes net1) net1 = Inr net'"
    by (auto simp: connect_def split: sum.splits)
  from connect_create_facts [OF cr] have "labels_of net1 = labels_of net"
    by (simp add: labels_of_def)
  with connect_wire_labels [OF w] show ?thesis by simp
qed

text \<open>
  In a Network built and connected, an adjacency (a, b) of a node whose label is its key
  is a wired hop, and the Line it takes is the one stored under \<open>a @ b\<close>.
\<close>

lemma connect_adjacency_wired:
  assumes built: "Network_init data = Inr net0" and wired: "connect net0 = Inr net"
    and na: "map_of (nodes net0) a = Some na" and lbl: "node_label na = a"
    and b: "b \<in> set (node_connected_nodes na)"
  shows "hop_line net a b = map_of (lines net) (a @ b)" and "hop_line net a b \<noteq> None"
proof -
  note fresh = Network_init_fresh [OF built]
  have l0: "lines_correct net0" using fresh(2) by (simp add: lines_correct_def)
  note f = connect_facts [OF wired fresh(1) l0]
  from na have "(a, na) \<in> set (nodes net0)" by (rule map_of_SomeD)
  with f(3) b have "wired_ok net a b" by auto
  then obtain na' l where na': "map_of (nodes net) a = Some na'"
    and sn: "map_of (node_successive na') (a @ b) = Some (a @ b)"
    and l: "map_of (lines net) (a @ b) = Some l"
    and sl: "map_of (line_successive l) b = Some b"
    by (auto simp: wired_ok_def split: option.splits)
  have "map_of (labels_of net) a = map_of (labels_of net0) a"
    using connect_labels [OF wired] by simp
  then have "node_label na' = a"
    using na na' lbl by (simp add: map_of_labels_of)
  then show "hop_line net a b = map_of (lines net) (a @ b)" and "hop_line net a b \<noteq> None"
    using na' sn l sl by (simp_all add: hop_line_def)
qed

text \<open>
  Where an entry's own label differs from its key, connect wires the adjacency under the
  key while Node.propagate looks the Line up under the label: the hop is not wired for
  the propagation, which raises KeyError.
\<close>

lemma mislabelled_propagate:
  "(case Network_init mislabelled_data of Inl e \<Rightarrow> Inl e | Inr net0 \<Rightarrow> connect net0)
     = Inr mislabelled_net
   \<and> Network_propagate mislabelled_net (example_heap [''A'', ''B''])
        \<lparr>signal_power = 1, noise_power = 0, latency = 0, path = 0\<rparr> = Inl (KeyError ''XB'')"
  by (simp add: Network_init_def mislabelled_data_def mislabelled_net_def Node_init_def
      setdefault_label_def connect_def unpack2_def hypot_example Line_init_def Let_def
      connect_wire_inner_Cons wire_step_def Network_propagate_def example_heap_def
      Node_propagate_hop)

subsection \<open>connect checks the adjacency lists\<close>

text \<open>
  The neighbour labels that \<open>Network.__init__\<close> does not look at are looked up by
  connect: on the topology built from \<open>dangling_data\<close> it raises KeyError, and
  whenever it returns, every adjacency list names only nodes of the topology.
\<close>

lemma connect_dangling: "connect dangling_net = Inl (KeyError ''B'')"
  by (simp add: connect_def dangling_net_def unpack2_def)

lemma position_ok_present: "position_ok net b \<Longrightarrow> map_of (nodes net) b \<noteq> None"
  by (auto simp: position_ok_def split: option.splits)

lemma connect_adjacency_closed:
  assumes "connect net = Inr net'"
  shows "adjacency_closed net" and "adjacency_closed net'"
proof -
  from assms obtain net1 where
    cr: "connect_create (nodes net) net = Inr net1" and
    w: "connect_wire (nodes net1) net1 = Inr net'"
    by (auto simp: connect_def split: sum.splits)
  note f1 = connect_create_facts [OF cr]
  from f1 have n1: "nodes net1 = nodes net" by simp
  have present: "map_of (nodes net) b \<noteq> None"
    if "(a, n) \<in> set (nodes net)" "b \<in> set (node_connected_nodes n)" for a n b
  proof -
    from f1 that(1) have "create_done net1 a n" by auto
    with that(2) have "position_ok net1 b" by (simp add: create_done_def)
    then show ?thesis using n1 by (auto dest: position_ok_present)
  qed
  then show c: "adjacency_closed net"
    by (auto simp: adjacency_closed_def list_all_iff)
  have "map_of (nodes net1) a \<noteq> None" if "(a, n) \<in> set (nodes net1)" for a n
  proof -
    from that have "a \<in> fst ` set (nodes net1)" by force
    then show ?thesis by (simp add: map_of_eq_None_iff)
  qed
  then have "\<forall>(a, n) \<in> set (nodes net1). map_of (nodes net1) a \<noteq> None" by auto
  note f2 = connect_wire_facts [OF w this]
  from f2 have sk: "skeleton net' = skeleton net1" by simp
  have "map_of (nodes net') b \<noteq> None"
    if "(a, n') \<in> set (nodes net')" "b \<in> set (node_connected_nodes n')" for a n' b
  proof -
    from skeleton_entry [OF sk that(1)] obtain n where "(a, n) \<in> set (nodes net1)"
      and "node_connected_nodes n = node_connected_nodes n'" by blast
    with that(2) present n1 have "map_of (nodes net) b \<noteq> None" by auto
    then show ?thesis using f2 n1 by auto
  qed
  then show "adjacency_closed net'"
    by (auto simp: adjacency_closed_def list_all_iff)
qed

section \<open>The signal owns its path\<close>

lemma update_path_frame: "a \<noteq> path s \<Longrightarrow> cells (update_path h s) a = cells h a"
  by (simp add: update_path_def)

lemma init_fresh:
  "p < next_free h \<Longrightarrow> Signal_information_init h P p = (h1, s) \<Longrightarrow>
   signal_power s = P \<and> noise_power s = 0 \<and> latency s = 0
   \<and> cells h1 (path s) = cells h p \<and> cells h1 p = cells h p \<and> path s \<noteq> p"
  by (auto simp: Signal_information_init_def alloc_list_def)

text \<open>
  C10. Constructing Signal\_information(P, p), where p is a list object of the caller,
  yields signal\_power = P, noise\_power = 0.0, latency = 0.0 and a path with the elements
  of p. The path is a list object of its own: the caller's list is untouched by the
  construction, by any update\_path call on the signal (from whatever heap), and by
  a whole propagation of the signal.
\<close>

theorem signal_init_copies_path:
  "p < next_free h \<Longrightarrow>
   (case Signal_information_init h P p of (h1, s) \<Rightarrow>
      signal_power s = P \<and> noise_power s = 0 \<and> latency s = 0
      \<and> cells h1 (path s) = cells h p
      \<and> cells h1 p = cells h p
      \<and> (\<forall>hx. cells (update_path hx s) p = cells hx p)
      \<and> (\<forall>net h2 s2. Network_propagate net h1 s = Inr (h2, s2) \<longrightarrow> cells h2 p = cells h p))"
proof -
  assume lt: "p < next_free h"
  obtain h1 s where init: "Signal_information_init h P p = (h1, s)"
    by (cases "Signal_information_init h P p")
  note f = init_fresh [OF lt init]
  have upd: "cells (update_path hx s) p = cells hx p" for hx
    using f by (simp add: update_path_frame)
  have pres: "cells h2 p = cells h p"
    if "Network_propagate net h1 s = Inr (h2, s2)" for net h2 s2
  proof (cases "cells h1 (path s) = []")
    case True
    with that f show ?thesis by (simp add: Network_propagate_def)
  next
    case False
    with that obtain n where "Node_propagate net n h1 s = Inr (h2, s2)"
      by (auto simp: Network_propagate_def Let_def split: option.splits)
    from Node_propagate_frame [OF refl this] f show ?thesis by auto
  qed
  show ?thesis using f upd pres by (auto simp: init)
qed

theorem signal_init_copies_path_witness:
  "0 < next_free (example_heap [''A'', ''B''])
   \<and> (case Signal_information_init (example_heap [''A'', ''B'']) 1 0 of (h1, s) \<Rightarrow>
        signal_power s = 1 \<and> noise_power s = 0 \<and> latency s = 0
        \<and> cells h1 (path s) = [''A'', ''B'']
        \<and> cells h1 0 = [''A'', ''B'']
        \<and> cells (update_path h1 s) 0 = [''A'', ''B''])"
proof -
  let ?h = "example_heap [''A'', ''B'']"
  have lt: "0 < next_free ?h" by (simp add: example_heap_def)
  have c0: "cells ?h 0 = [''A'', ''B'']" by (simp add: example_heap_def)
  obtain h1 s where init: "Signal_information_init ?h 1 0 = (h1, s)"
    by (cases "Signal_information_init ?h 1 0")
  from signal_init_copies_path [OF lt, of 1] have
    "signal_power s = 1 \<and> noise_power s = 0 \<and> latency s = 0
     \<and> cells h1 (path s) = cells ?h 0 \<and> cells h1 0 = cells ?h 0
     \<and> cells (update_path h1 s) 0 = cells h1 0"
    unfolding init by simp
  then show ?thesis using lt c0 unfolding init by simp
qed

end
